theory Spec2Isabelle
  imports Complex_Main "HOL-Library.AList"
begin

section \<open>Go strings, runes and the Unicode predicates the scanner calls\<close>

text \<open>
  A Go string is read by the scanner only through functions that decode it rune by rune
  (\<^verbatim>\<open>regexp\<close>, \<^verbatim>\<open>strings.ToLower\<close>, \<^verbatim>\<open>strings.FieldsFunc\<close>, \<^verbatim>\<open>strings.TrimSpace\<close>) or
  that split it at the ASCII byte \<^verbatim>\<open>\n\<close>. A string is therefore modelled as the list of
  the code points Go decodes from it (an invalid byte decodes to U+FFFD, which is neither a
  letter, a digit nor a space).
\<close>

type_synonym rune = nat
type_synonym gostring = "rune list"

definition str :: "string \<Rightarrow> gostring" where
  "str s = map of_char s"

text \<open>
  \<^verbatim>\<open>unicode.IsLetter\<close>, \<^verbatim>\<open>unicode.IsDigit\<close> and \<^verbatim>\<open>unicode.ToLower\<close> answer from Go's own
  code for the Latin-1 range (letters and digits) and for ASCII (lower-casing), and from the
  Unicode tables of the Go library beyond. The tables are not part of the repository: they
  are a parameter of the model, and every general theorem holds for every table.
\<close>

record unicode_tables =
  LetterT :: "rune \<Rightarrow> bool"
  DigitT :: "rune \<Rightarrow> bool"
  LowerT :: "rune \<Rightarrow> rune"

definition latin1_letter :: "rune \<Rightarrow> bool" where
  "latin1_letter r =
     ((65 \<le> r \<and> r \<le> 90) \<or> (97 \<le> r \<and> r \<le> 122) \<or> r = 170 \<or> r = 181 \<or> r = 186 \<or>
      (192 \<le> r \<and> r \<le> 214) \<or> (216 \<le> r \<and> r \<le> 246) \<or> (248 \<le> r \<and> r \<le> 255))"

definition unicode_IsLetter :: "unicode_tables \<Rightarrow> rune \<Rightarrow> bool" where
  "unicode_IsLetter T r = (if r \<le> 255 then latin1_letter r else LetterT T r)"

definition unicode_IsDigit :: "unicode_tables \<Rightarrow> rune \<Rightarrow> bool" where
  "unicode_IsDigit T r = (if r \<le> 255 then 48 \<le> r \<and> r \<le> 57 else DigitT T r)"

definition unicode_ToLower :: "unicode_tables \<Rightarrow> rune \<Rightarrow> rune" where
  "unicode_ToLower T r =
     (if r \<le> 127 then (if 65 \<le> r \<and> r \<le> 90 then r + 32 else r) else LowerT T r)"

text \<open>\<^verbatim>\<open>unicode.IsSpace\<close>: the Latin-1 spaces of Go's code, then the White_Space table.\<close>

definition unicode_IsSpace :: "rune \<Rightarrow> bool" where
  "unicode_IsSpace r =
     (r = 9 \<or> r = 10 \<or> r = 11 \<or> r = 12 \<or> r = 13 \<or> r = 32 \<or> r = 133 \<or> r = 160 \<or>
      r = 5760 \<or> (8192 \<le> r \<and> r \<le> 8202) \<or> r = 8232 \<or> r = 8233 \<or> r = 8239 \<or>
      r = 8287 \<or> r = 12288)"

text \<open>
  The tables of Go restricted to Latin-1, for the concrete runs below: beyond U+00FF no
  rune is taken to be a letter or a digit, and lower-casing leaves it alone.
\<close>

definition tables_latin1 :: unicode_tables where
  "tables_latin1 =
     \<lparr>LetterT = (\<lambda>r. False), DigitT = (\<lambda>r. False),
      LowerT = (\<lambda>r. if 192 \<le> r \<and> r \<le> 222 \<and> r \<noteq> 215 then r + 32 else r)\<rparr>"

definition strings_ToLower :: "unicode_tables \<Rightarrow> gostring \<Rightarrow> gostring" where
  "strings_ToLower T s = map (unicode_ToLower T) s"

definition strings_TrimSpace :: "gostring \<Rightarrow> gostring" where
  "strings_TrimSpace s = rev (dropWhile unicode_IsSpace (rev (dropWhile unicode_IsSpace s)))"

definition strings_HasSuffix :: "gostring \<Rightarrow> gostring \<Rightarrow> bool" where
  "strings_HasSuffix s suffix =
     (length suffix \<le> length s \<and> drop (length s - length suffix) s = suffix)"

text \<open>\<^verbatim>\<open>strings.Split(s, "\n")\<close>: the empty string gives one empty line.\<close>

fun strings_Split_nl :: "gostring \<Rightarrow> gostring list" where
  "strings_Split_nl [] = [[]]"
| "strings_Split_nl (c # cs) =
     (if c = 10 then [] # strings_Split_nl cs
      else (case strings_Split_nl cs of
              [] \<Rightarrow> [[c]]
            | l # ls \<Rightarrow> (c # l) # ls))"

text \<open>\<^verbatim>\<open>strings.FieldsFunc(s, f)\<close>: the maximal runs of runes that do not satisfy \<open>f\<close>.\<close>

function strings_FieldsFunc :: "(rune \<Rightarrow> bool) \<Rightarrow> gostring \<Rightarrow> gostring list" where
  "strings_FieldsFunc f [] = []"
| "strings_FieldsFunc f (c # cs) =
     (if f c then strings_FieldsFunc f cs
      else (c # takeWhile (\<lambda>r. \<not> f r) cs) #
           strings_FieldsFunc f (dropWhile (\<lambda>r. \<not> f r) cs))"
  by pat_completeness auto
termination
  by (relation "measure (\<lambda>(f, s). length s)")
     (auto simp: less_Suc_eq_le length_dropWhile_le)

section \<open>The declaration pattern\<close>

text \<open>
  \<^verbatim>\<open>regexp\<close> patterns as a datatype, and Go's leftmost-first matching as the list of all
  ways a pattern can match a prefix of the text, the preferred way first. A state is the
  text that is left and the groups captured so far; \<open>n\<close> is the length of the whole text,
  so that \<^verbatim>\<open>^\<close> holds only where nothing has been consumed.
\<close>

datatype re =
    Eps
  | Cls "rune \<Rightarrow> bool"
  | Bol
  | Cat re re
  | Alt re re
  | Opt re
  | Star re
  | Cap nat re

type_synonym mstate = "gostring \<times> (nat \<Rightarrow> gostring option)"

function (sequential) ms :: "nat \<Rightarrow> re \<Rightarrow> mstate \<Rightarrow> mstate list" where
  "ms n Eps st = [st]"
| "ms n (Cls p) (s, c) = (case s of [] \<Rightarrow> [] | x # xs \<Rightarrow> if p x then [(xs, c)] else [])"
| "ms n Bol (s, c) = (if length s = n then [(s, c)] else [])"
| "ms n (Cat a b) st = concat (map (ms n b) (ms n a st))"
| "ms n (Alt a b) st = ms n a st @ ms n b st"
| "ms n (Opt a) st = ms n a st @ [st]"
| "ms n (Star a) st =
     concat (map (\<lambda>st'. if length (fst st') < length (fst st) then ms n (Star a) st' else [])
                 (ms n a st)) @ [st]"
| "ms n (Cap i a) (s, c) =
     map (\<lambda>(s', c'). (s', c'(i := Some (take (length s - length s') s)))) (ms n a (s, c))"
  by pat_completeness auto
termination
  by (relation "measures [\<lambda>(n, r, st). size r, \<lambda>(n, r, st). length (fst st)]") auto

definition Plus :: "re \<Rightarrow> re" where
  "Plus a = Cat a (Star a)"

text \<open>
  Under the flag \<^verbatim>\<open>(?i)\<close> a literal and a class match every rune of the simple case
  folding orbit of their runes (\<^verbatim>\<open>unicode.SimpleFold\<close>). For the ASCII letters the orbit
  is the letter in both cases, and two more runes: U+212A (Kelvin sign) folds with \<open>k\<close> and
  U+017F (long s) folds with \<open>s\<close>.
\<close>

definition fold_eq :: "rune \<Rightarrow> rune \<Rightarrow> bool" where
  "fold_eq c x =
     (x = c \<or> (97 \<le> c \<and> c \<le> 122 \<and> x + 32 = c) \<or> (65 \<le> c \<and> c \<le> 90 \<and> x = c + 32) \<or>
      ((c = 107 \<or> c = 75) \<and> x = 8490) \<or> ((c = 115 \<or> c = 83) \<and> x = 383))"

definition lit :: "string \<Rightarrow> re" where
  "lit w = foldr (\<lambda>ch r. Cat (Cls (fold_eq (of_char ch))) r) w Eps"

text \<open>\<^verbatim>\<open>\s\<close> is the Perl class of Go: tab, newline, form feed, carriage return, space.\<close>

definition perl_space :: "rune \<Rightarrow> bool" where
  "perl_space r = (r = 9 \<or> r = 10 \<or> r = 12 \<or> r = 13 \<or> r = 32)"

text \<open>\<^verbatim>\<open>[a-zA-Z0-9_]\<close> under \<^verbatim>\<open>(?i)\<close>: the ranges and what folds into them.\<close>

definition name_class :: "rune \<Rightarrow> bool" where
  "name_class r =
     ((97 \<le> r \<and> r \<le> 122) \<or> (65 \<le> r \<and> r \<le> 90) \<or> (48 \<le> r \<and> r \<le> 57) \<or> r = 95 \<or>
      r = 8490 \<or> r = 383)"

text \<open>\<^verbatim>\<open>(?i)^\s*(static\s+)?(function|procedure)\s+([a-zA-Z0-9_]+)\<close>\<close>

definition declRegex :: re where
  "declRegex =
     Cat Bol
    (Cat (Star (Cls perl_space))
    (Cat (Opt (Cap 1 (Cat (lit ''static'') (Plus (Cls perl_space)))))
    (Cat (Cap 2 (Alt (lit ''function'') (lit ''procedure'')))
    (Cat (Plus (Cls perl_space))
         (Cap 3 (Plus (Cls name_class)))))))"

text \<open>
  \<^verbatim>\<open>FindStringSubmatch\<close>: the preferred match at the leftmost offset that has one, as the
  slice of the whole match and the three groups (a group that took no part is \<^verbatim>\<open>""\<close>);
  \<open>None\<close> is Go's \<^verbatim>\<open>nil\<close>.
\<close>

definition group :: "(nat \<Rightarrow> gostring option) \<Rightarrow> nat \<Rightarrow> gostring" where
  "group c i = (case c i of None \<Rightarrow> [] | Some g \<Rightarrow> g)"

definition match_here :: "nat \<Rightarrow> re \<Rightarrow> gostring \<Rightarrow> gostring list option" where
  "match_here n r s =
     (case ms n r (s, \<lambda>i. None) of
        [] \<Rightarrow> None
      | (s', c) # rest \<Rightarrow> Some [take (length s - length s') s, group c 1, group c 2, group c 3])"

fun search :: "nat \<Rightarrow> re \<Rightarrow> gostring \<Rightarrow> gostring list option" where
  "search n r [] = match_here n r []"
| "search n r (x # xs) =
     (case match_here n r (x # xs) of
        Some m \<Rightarrow> Some m
      | None \<Rightarrow> search n r xs)"

definition FindStringSubmatch :: "re \<Rightarrow> gostring \<Rightarrow> gostring list option" where
  "FindStringSubmatch r line = search (length line) r line"

section \<open>The symbol table\<close>

text \<open>
  \<^verbatim>\<open>UsageCount\<close> is an \<^verbatim>\<open>int64\<close>. It is kept as an integer, and the wrap-around of
  \<^verbatim>\<open>gf.UsageCount++\<close> and of \<^verbatim>\<open>atomic.AddInt64\<close> is written out: \<open>wrap_int64 x\<close> is what
  an \<^verbatim>\<open>int64\<close> holds after an addition whose exact result is \<open>x\<close>. The two Go maps are
  association lists with one pair for each key. Go visits a map in an unspecified order:
  wherever the source ranges over a map, the result below is read as a set or through
  look-ups.
\<close>

definition wrap_int64 :: "int \<Rightarrow> int" where
  "wrap_int64 x = (x + 2 ^ 63) mod 2 ^ 64 - 2 ^ 63"

record FunctionDeclaration =
  Name :: gostring
  File :: gostring
  Static :: bool
  UsageCount :: int

type_synonym DeclarationInfo = "gostring \<times> gostring"

record symtab =
  globalFunctions :: "(gostring \<times> FunctionDeclaration) list"
  staticFunctions :: "(gostring \<times> (gostring \<times> FunctionDeclaration) list) list"
  stdout :: "gostring list"

text \<open>
  \<open>stdout\<close> holds, for every \<^verbatim>\<open>fmt.Printf("Erro ao ler o arquivo ...")\<close>, the path it
  reports. A scan starts from the empty maps.
\<close>

definition init :: symtab where
  "init = \<lparr>globalFunctions = [], staticFunctions = [], stdout = []\<rparr>"

section \<open>The declaration phase\<close>

text \<open>The critical section of \<^verbatim>\<open>processFileForDeclarations\<close>, between Lock and Unlock.\<close>

definition register :: "gostring \<Rightarrow> bool \<Rightarrow> gostring \<Rightarrow> symtab \<Rightarrow> symtab" where
  "register file isStatic name st =
     (if isStatic then
        st\<lparr>staticFunctions :=
             AList.update file
               (AList.update name
                  \<lparr>Name = name, File = file, Static = True, UsageCount = 1\<rparr>
                  (case map_of (staticFunctions st) file of None \<Rightarrow> [] | Some funcs \<Rightarrow> funcs))
               (staticFunctions st)\<rparr>
      else
        (case map_of (globalFunctions st) name of
           Some gf \<Rightarrow>
             st\<lparr>globalFunctions :=
                  AList.update name (gf\<lparr>UsageCount := wrap_int64 (UsageCount gf + 1)\<rparr>)
                    (globalFunctions st)\<rparr>
         | None \<Rightarrow>
             st\<lparr>globalFunctions :=
                  AList.update name
                    \<lparr>Name = name, File = file, Static = False, UsageCount = 1\<rparr>
                    (globalFunctions st)\<rparr>))"

text \<open>One line: \<open>match[1]\<close> is the group of \<^verbatim>\<open>static\<close>, \<open>match[3]\<close> the name.\<close>

definition line_decl :: "gostring \<Rightarrow> (bool \<times> gostring) option" where
  "line_decl line =
     (case FindStringSubmatch declRegex line of
        None \<Rightarrow> None
      | Some match \<Rightarrow> Some (strings_TrimSpace (match ! 1) \<noteq> [], match ! 3))"

definition process_line :: "gostring \<Rightarrow> symtab \<Rightarrow> gostring \<Rightarrow> symtab" where
  "process_line file st line =
     (case line_decl line of
        None \<Rightarrow> st
      | Some (isStatic, name) \<Rightarrow> register file isStatic name st)"

text \<open>\<open>readFile\<close> is \<^verbatim>\<open>os.ReadFile\<close>: \<open>None\<close> when it returns an error.\<close>

definition processFileForDeclarations ::
  "(gostring \<Rightarrow> gostring option) \<Rightarrow> gostring \<Rightarrow> symtab \<Rightarrow> symtab" where
  "processFileForDeclarations readFile file st =
     (case readFile file of
        None \<Rightarrow> st\<lparr>stdout := stdout st @ [file]\<rparr>
      | Some content \<Rightarrow> foldl (process_line file) st (strings_Split_nl content))"

text \<open>
  The workers take the files from the channel, and the critical sections of different
  files may interleave. The model takes the schedules that finish a file before the next
  one starts: a schedule is an order of the list.
\<close>

definition ProcessDeclarationsConcurrently ::
  "(gostring \<Rightarrow> gostring option) \<Rightarrow> gostring list \<Rightarrow> symtab \<Rightarrow> symtab" where
  "ProcessDeclarationsConcurrently readFile files st =
     foldl (\<lambda>st file. processFileForDeclarations readFile file st) st files"

section \<open>The usage phase\<close>

text \<open>
  \<^verbatim>\<open>freq[token]++\<close> over the tokens; a key that is absent reads as 0. A count is a Go
  \<^verbatim>\<open>int\<close>, of 64 bits, and at most the number of bytes of the file, which is an \<^verbatim>\<open>int\<close>
  itself: the counts of one file do not overflow, and \<^verbatim>\<open>int64(count)\<close> is the count.
\<close>

definition freq_of :: "gostring list \<Rightarrow> gostring \<Rightarrow> int" where
  "freq_of tokens = foldl (\<lambda>freq token. freq(token := freq token + 1)) (\<lambda>token. 0) tokens"

definition tokenize :: "unicode_tables \<Rightarrow> gostring \<Rightarrow> gostring list" where
  "tokenize T content =
     strings_FieldsFunc (\<lambda>r. \<not> (unicode_IsLetter T r \<or> unicode_IsDigit T r \<or> r = 95)) content"

definition file_freq :: "unicode_tables \<Rightarrow> gostring \<Rightarrow> gostring \<Rightarrow> int" where
  "file_freq T contentBytes = freq_of (tokenize T (strings_ToLower T contentBytes))"

text \<open>The body of the loop over \<^verbatim>\<open>globalFunctions\<close>.\<close>

definition use_global ::
  "unicode_tables \<Rightarrow> gostring \<Rightarrow> (gostring \<Rightarrow> int) \<Rightarrow> FunctionDeclaration \<Rightarrow> FunctionDeclaration"
  where
  "use_global T file freq decl =
     (let lowerName = strings_ToLower T (Name decl);
          count = freq lowerName;
          count = (if file = File decl \<and> count > 0 then count - 1 else count)
      in if count > 0 then decl\<lparr>UsageCount := wrap_int64 (UsageCount decl + count)\<rparr>
         else decl)"

text \<open>The body of the loop over \<^verbatim>\<open>staticFunctions[file]\<close>.\<close>

definition use_static ::
  "unicode_tables \<Rightarrow> (gostring \<Rightarrow> int) \<Rightarrow> FunctionDeclaration \<Rightarrow> FunctionDeclaration"
  where
  "use_static T freq decl =
     (let lowerName = strings_ToLower T (Name decl);
          count = freq lowerName;
          count = (if count > 0 then count - 1 else count)
      in if count > 0 then decl\<lparr>UsageCount := wrap_int64 (UsageCount decl + count)\<rparr>
         else decl)"

definition processFileForUsage ::
  "unicode_tables \<Rightarrow> (gostring \<Rightarrow> gostring option) \<Rightarrow> gostring \<Rightarrow> symtab \<Rightarrow> symtab" where
  "processFileForUsage T readFile file st =
     (case readFile file of
        None \<Rightarrow> st\<lparr>stdout := stdout st @ [file]\<rparr>
      | Some contentBytes \<Rightarrow>
          (let freq = file_freq T contentBytes
           in st\<lparr>globalFunctions :=
                   map (\<lambda>(name, decl). (name, use_global T file freq decl)) (globalFunctions st),
                 staticFunctions :=
                   (case map_of (staticFunctions st) file of
                      Some funcs \<Rightarrow>
                        AList.update file
                          (map (\<lambda>(name, decl). (name, use_static T freq decl)) funcs)
                          (staticFunctions st)
                    | None \<Rightarrow> staticFunctions st)\<rparr>))"

definition ProcessUsageConcurrently ::
  "unicode_tables \<Rightarrow> (gostring \<Rightarrow> gostring option) \<Rightarrow> gostring list \<Rightarrow> symtab \<Rightarrow> symtab" where
  "ProcessUsageConcurrently T readFile files st =
     foldl (\<lambda>st file. processFileForUsage T readFile file st) st files"

section \<open>Unused declarations and statistics\<close>

definition GetUnusedDeclarations :: "symtab \<Rightarrow> DeclarationInfo list \<times> DeclarationInfo list" where
  "GetUnusedDeclarations st =
     (map (\<lambda>(name, decl). (Name decl, File decl))
        (filter (\<lambda>(name, decl). UsageCount decl \<le> 1) (globalFunctions st)),
      concat (map (\<lambda>(file, funcs).
                map (\<lambda>(name, decl). (Name decl, file))
                  (filter (\<lambda>(name, decl). UsageCount decl \<le> 1) funcs))
              (staticFunctions st)))"

text \<open>
  A \<^verbatim>\<open>float64\<close> that is a number is kept as the rational it stands for, apart from the
  infinities and NaN; the sign of a zero is not kept (no operand below is negative). As
  IEEE 754 has it, a division, a product and a conversion from an integer give the
  \<^verbatim>\<open>float64\<close> nearest to the exact result, the one with the even significand when two are
  equally near: a \<^verbatim>\<open>float64\<close> has a significand of 53 bits and an exponent from -1022 to
  1023, below which the numbers are evenly spaced.
\<close>

datatype float64 = Num rat | PosInf | NegInf | NaN

text \<open>The number of binary digits of a natural number.\<close>

fun bit_length :: "nat \<Rightarrow> nat" where
  "bit_length n = (if n = 0 then 0 else Suc (bit_length (n div 2)))"

declare bit_length.simps [simp del]

definition pow2 :: "int \<Rightarrow> rat" where
  "pow2 k = (if 0 \<le> k then 2 ^ nat k else 1 / 2 ^ nat (- k))"

text \<open>The exponent of a positive rational \<open>x\<close>: \<open>pow2 e \<le> x < pow2 (e + 1)\<close>.\<close>

definition exponent :: "rat \<Rightarrow> int" where
  "exponent x =
     (if 1 \<le> x then int (bit_length (nat \<lfloor>x\<rfloor>)) - 1
      else - int (bit_length (nat (\<lceil>1 / x\<rceil> - 1))))"

definition round_half_even :: "rat \<Rightarrow> int" where
  "round_half_even x =
     (let f = \<lfloor>x\<rfloor>; r = x - of_int f
      in if r < 1 / 2 then f else if 1 / 2 < r then f + 1 else if even f then f else f + 1)"

definition round_float64 :: "rat \<Rightarrow> float64" where
  "round_float64 x =
     (if x = 0 then Num 0
      else
        (let e = max (exponent \<bar>x\<bar>) (- 1022);
             ulp = pow2 (e - 52);
             y = of_int (round_half_even (\<bar>x\<bar> / ulp)) * ulp
         in if pow2 1024 \<le> y then (if 0 < x then PosInf else NegInf)
            else Num (sgn x * y)))"

fun f64_div :: "float64 \<Rightarrow> float64 \<Rightarrow> float64" where
  "f64_div (Num a) (Num b) =
     (if b = 0 then (if a = 0 then NaN else if 0 < a then PosInf else NegInf)
      else round_float64 (a / b))"
| "f64_div (Num a) PosInf = Num 0"
| "f64_div (Num a) NegInf = Num 0"
| "f64_div PosInf (Num b) = (if 0 \<le> b then PosInf else NegInf)"
| "f64_div NegInf (Num b) = (if 0 \<le> b then NegInf else PosInf)"
| "f64_div x y = NaN"

fun f64_mul :: "float64 \<Rightarrow> float64 \<Rightarrow> float64" where
  "f64_mul (Num a) (Num b) = round_float64 (a * b)"
| "f64_mul (Num a) PosInf = (if a = 0 then NaN else if 0 < a then PosInf else NegInf)"
| "f64_mul (Num a) NegInf = (if a = 0 then NaN else if 0 < a then NegInf else PosInf)"
| "f64_mul PosInf (Num b) = (if b = 0 then NaN else if 0 < b then PosInf else NegInf)"
| "f64_mul NegInf (Num b) = (if b = 0 then NaN else if 0 < b then NegInf else PosInf)"
| "f64_mul PosInf PosInf = PosInf"
| "f64_mul PosInf NegInf = NegInf"
| "f64_mul NegInf PosInf = NegInf"
| "f64_mul NegInf NegInf = PosInf"
| "f64_mul x y = NaN"

text \<open>The conversion \<^verbatim>\<open>float64(i)\<close> of an \<^verbatim>\<open>int\<close>.\<close>

definition f64_of_int :: "int \<Rightarrow> float64" where
  "f64_of_int i = round_float64 (of_int i)"

text \<open>
  The lengths and the counters of \<^verbatim>\<open>CalculateStatistics\<close> are Go \<^verbatim>\<open>int\<close>s that count
  entries of the two maps: they do not overflow.
\<close>

record Statistics =
  TotalGlobal :: int
  UnusedGlobal :: int
  TotalStatic :: int
  UnusedStatic :: int
  TotalProcessingTime :: int
  GlobalUsagePercentage :: float64
  StaticUsagePercentage :: float64

definition CalculateStatistics :: "int \<Rightarrow> symtab \<Rightarrow> Statistics" where
  "CalculateStatistics totalProcessingTime st =
     (let totalGlobal = int (length (globalFunctions st));
          unusedGlobalCount =
            int (length (filter (\<lambda>(name, decl). UsageCount decl \<le> 1) (globalFunctions st)));
          totalStatic = int (length (concat (map snd (staticFunctions st))));
          unusedStaticCount =
            int (length (filter (\<lambda>(name, decl). UsageCount decl \<le> 1)
                           (concat (map snd (staticFunctions st)))));
          globalUsed = totalGlobal - unusedGlobalCount;
          staticUsed = totalStatic - unusedStaticCount;
          globalUsagePercentage =
            (if totalGlobal > 0
             then f64_mul (f64_div (f64_of_int globalUsed) (f64_of_int totalGlobal)) (Num 100)
             else Num 0);
          staticUsagePercentage =
            (if totalStatic > 0
             then f64_mul (f64_div (f64_of_int staticUsed) (f64_of_int totalStatic)) (Num 100)
             else Num 0)
      in \<lparr>TotalGlobal = totalGlobal, UnusedGlobal = unusedGlobalCount,
          TotalStatic = totalStatic, UnusedStatic = unusedStaticCount,
          TotalProcessingTime = totalProcessingTime,
          GlobalUsagePercentage = globalUsagePercentage,
          StaticUsagePercentage = staticUsagePercentage\<rparr>)"

section \<open>The file locator and the run\<close>

text \<open>
  \<^verbatim>\<open>filepath.WalkDir\<close> calls the function of \<^verbatim>\<open>SearchPRGFiles\<close> on every entry under the
  root. An entry is given with the path WalkDir passes and the name \<^verbatim>\<open>d.Name()\<close> returns; a
  directory has its entries in the order of \<^verbatim>\<open>os.ReadDir\<close>, or \<open>None\<close> when ReadDir
  fails on it. WalkDir then calls the function a second time with the error, the function
  returns it and the walk stops there.
\<close>

datatype fsnode =
    FileEntry gostring gostring
  | DirEntry gostring gostring "fsnode list option"

datatype error = LstatError gostring | ReadDirError gostring

fun walkDir :: "unicode_tables \<Rightarrow> fsnode \<Rightarrow> gostring list \<Rightarrow> gostring list \<times> error option"
and walkDirs :: "unicode_tables \<Rightarrow> fsnode list \<Rightarrow> gostring list \<Rightarrow> gostring list \<times> error option"
where
  "walkDir T (FileEntry path name) prgFiles =
     (if strings_HasSuffix (strings_ToLower T name) (str ''.prg'')
      then (prgFiles @ [path], None) else (prgFiles, None))"
| "walkDir T (DirEntry path name None) prgFiles = (prgFiles, Some (ReadDirError path))"
| "walkDir T (DirEntry path name (Some dirs)) prgFiles = walkDirs T dirs prgFiles"
| "walkDirs T [] prgFiles = (prgFiles, None)"
| "walkDirs T (d1 # ds) prgFiles =
     (case walkDir T d1 prgFiles of
        (prgFiles', Some err) \<Rightarrow> (prgFiles', Some err)
      | (prgFiles', None) \<Rightarrow> walkDirs T ds prgFiles')"

text \<open>
  \<open>lstat rootDir\<close> is \<^verbatim>\<open>os.Lstat(root)\<close>: \<open>None\<close> when the root cannot be reached
  (the parameter \<^verbatim>\<open>root\<close> of the source is \<open>rootDir\<close> here).
\<close>

definition SearchPRGFiles ::
  "unicode_tables \<Rightarrow> (gostring \<Rightarrow> fsnode option) \<Rightarrow> gostring \<Rightarrow> gostring list \<times> error option"
  where
  "SearchPRGFiles T lstat rootDir =
     (case lstat rootDir of
        None \<Rightarrow> ([], Some (LstatError rootDir))
      | Some d \<Rightarrow> walkDir T d [])"

definition scan ::
  "unicode_tables \<Rightarrow> (gostring \<Rightarrow> gostring option) \<Rightarrow> gostring list \<Rightarrow> symtab" where
  "scan T readFile files =
     ProcessUsageConcurrently T readFile files
       (ProcessDeclarationsConcurrently readFile files init)"

text \<open>
  \<^verbatim>\<open>main\<close>: \<^verbatim>\<open>log.Fatalf\<close> on the error of the search, before any phase; otherwise the two
  phases, the statistics and the unused declarations, which go to \<^verbatim>\<open>GenerateLog\<close>. The
  elapsed time is an input, and writing the log is outside the model.
\<close>

datatype outcome =
    Fatal error
  | Report "DeclarationInfo list" "DeclarationInfo list" Statistics "gostring list"

definition main ::
  "unicode_tables \<Rightarrow> (gostring \<Rightarrow> fsnode option) \<Rightarrow> (gostring \<Rightarrow> gostring option) \<Rightarrow>
   gostring \<Rightarrow> int \<Rightarrow> outcome" where
  "main T lstat readFile dir totalTime =
     (case SearchPRGFiles T lstat dir of
        (prgFiles, Some err) \<Rightarrow> Fatal err
      | (prgFiles, None) \<Rightarrow>
          (let st = scan T readFile prgFiles;
               stats = CalculateStatistics totalTime st;
               (unusedGlobal, unusedStatic) = GetUnusedDeclarations st
           in Report unusedGlobal unusedStatic stats (stdout st)))"

section \<open>Notions used to state the properties\<close>

text \<open>The non-directory entries under an entry, and whether every directory can be read.\<close>

fun files_under :: "fsnode \<Rightarrow> (gostring \<times> gostring) list"
and files_under_list :: "fsnode list \<Rightarrow> (gostring \<times> gostring) list" where
  "files_under (FileEntry path name) = [(path, name)]"
| "files_under (DirEntry path name None) = []"
| "files_under (DirEntry path name (Some dirs)) = files_under_list dirs"
| "files_under_list [] = []"
| "files_under_list (d # ds) = files_under d @ files_under_list ds"

fun readable :: "fsnode \<Rightarrow> bool"
and readable_list :: "fsnode list \<Rightarrow> bool" where
  "readable (FileEntry path name) = True"
| "readable (DirEntry path name None) = False"
| "readable (DirEntry path name (Some dirs)) = readable_list dirs"
| "readable_list [] = True"
| "readable_list (d # ds) = (readable d \<and> readable_list ds)"

text \<open>
  The declarations the lines of a file give, in the order of the lines, each with whether it
  is static; a file that cannot be read gives none.
\<close>

definition file_decls :: "(gostring \<Rightarrow> gostring option) \<Rightarrow> gostring \<Rightarrow> (bool \<times> gostring) list"
  where
  "file_decls readFile file =
     (case readFile file of
        None \<Rightarrow> []
      | Some content \<Rightarrow> List.map_filter line_decl (strings_Split_nl content))"

text \<open>How often the lower-cased name is a token of the lower-cased file.\<close>

definition occurrences ::
  "unicode_tables \<Rightarrow> (gostring \<Rightarrow> gostring option) \<Rightarrow> gostring \<Rightarrow> gostring \<Rightarrow> int" where
  "occurrences T readFile file name =
     (case readFile file of
        None \<Rightarrow> 0
      | Some content \<Rightarrow> file_freq T content (strings_ToLower T name))"

text \<open>The look-ups \<^verbatim>\<open>globalFunctions[name]\<close> and \<^verbatim>\<open>staticFunctions[file][name]\<close>.\<close>

definition global_decl :: "symtab \<Rightarrow> gostring \<Rightarrow> FunctionDeclaration option" where
  "global_decl st name = map_of (globalFunctions st) name"

definition static_decl :: "symtab \<Rightarrow> gostring \<Rightarrow> gostring \<Rightarrow> FunctionDeclaration option" where
  "static_decl st file name =
     (case map_of (staticFunctions st) file of
        None \<Rightarrow> None
      | Some funcs \<Rightarrow> map_of funcs name)"

text \<open>
  What every table the scanner builds satisfies: one pair for each key, and every
  declaration stored under its own name (and, when static, under its own file).
\<close>

definition funcs_ok :: "(gostring \<times> FunctionDeclaration) list \<Rightarrow> bool" where
  "funcs_ok funcs =
     (distinct (map fst funcs) \<and> list_all (\<lambda>(name, decl). Name decl = name) funcs)"

definition table_ok :: "symtab \<Rightarrow> bool" where
  "table_ok st =
     (funcs_ok (globalFunctions st) \<and>
      list_all (\<lambda>(name, decl). \<not> Static decl) (globalFunctions st) \<and>
      distinct (map fst (staticFunctions st)) \<and>
      list_all (\<lambda>(file, funcs).
          funcs_ok funcs \<and> list_all (\<lambda>(name, decl). File decl = file \<and> Static decl) funcs)
        (staticFunctions st))"

text \<open>
  The number of lines of a file that declare a name as a global, whether a line of the file
  declares it as a static, and what one file adds to the counter of a declaration: the
  occurrences of its lower-cased name, less one when the rule of the source discounts the
  declaration.
\<close>

definition global_lines :: "(gostring \<Rightarrow> gostring option) \<Rightarrow> gostring \<Rightarrow> gostring \<Rightarrow> int" where
  "global_lines readFile file name =
     int (length (filter (\<lambda>x. x = (False, name)) (file_decls readFile file)))"

definition static_declared :: "(gostring \<Rightarrow> gostring option) \<Rightarrow> gostring \<Rightarrow> gostring \<Rightarrow> bool"
  where
  "static_declared readFile file name = ((True, name) \<in> set (file_decls readFile file))"

definition global_added ::
  "unicode_tables \<Rightarrow> (gostring \<Rightarrow> gostring option) \<Rightarrow> gostring \<Rightarrow> gostring \<Rightarrow> gostring \<Rightarrow> int"
  where
  "global_added T readFile file name declFile =
     (let count = occurrences T readFile file name
      in if file = declFile \<and> count > 0 then count - 1 else count)"

definition static_added ::
  "unicode_tables \<Rightarrow> (gostring \<Rightarrow> gostring option) \<Rightarrow> gostring \<Rightarrow> gostring \<Rightarrow> int" where
  "static_added T readFile file name =
     (let count = occurrences T readFile file name
      in if count > 0 then count - 1 else count)"

text \<open>The number of lines and of tokens of the files that can be read.\<close>

definition scan_size ::
  "unicode_tables \<Rightarrow> (gostring \<Rightarrow> gostring option) \<Rightarrow> gostring list \<Rightarrow> int" where
  "scan_size T readFile files =
     (\<Sum>file\<leftarrow>files.
        case readFile file of
          None \<Rightarrow> 0
        | Some content \<Rightarrow>
            int (length (strings_Split_nl content)) +
            int (length (tokenize T (strings_ToLower T content))))"

text \<open>
  Declarations as the source builds them, and a declaration after \<^verbatim>\<open>atomic.AddInt64\<close> of an
  amount, which the source calls for positive amounts only.
\<close>

definition new_global :: "gostring \<Rightarrow> gostring \<Rightarrow> int \<Rightarrow> FunctionDeclaration" where
  "new_global name file k = \<lparr>Name = name, File = file, Static = False, UsageCount = k\<rparr>"

definition new_static :: "gostring \<Rightarrow> gostring \<Rightarrow> int \<Rightarrow> FunctionDeclaration" where
  "new_static name file k = \<lparr>Name = name, File = file, Static = True, UsageCount = k\<rparr>"

definition bump :: "int \<Rightarrow> FunctionDeclaration \<Rightarrow> FunctionDeclaration" where
  "bump k decl =
     (if 0 < k then decl\<lparr>UsageCount := wrap_int64 (UsageCount decl + k)\<rparr> else decl)"

section \<open>The declaration rule in the words of the specification\<close>

text \<open>
  A line declares a symbol if, leading whitespace ignored, it starts with an optional
  keyword \<^verbatim>\<open>static\<close> in any case followed by whitespace, then \<^verbatim>\<open>function\<close> or
  \<^verbatim>\<open>procedure\<close> in any case, then whitespace, then a name of ASCII letters, digits or
  underscores. Whitespace is taken to be what \<^verbatim>\<open>\s\<close> matches.
\<close>

definition ascii_lower :: "rune \<Rightarrow> rune" where
  "ascii_lower r = (if 65 \<le> r \<and> r \<le> 90 then r + 32 else r)"

definition spec_keyword :: "string \<Rightarrow> gostring \<Rightarrow> gostring option" where
  "spec_keyword w s =
     (if length w \<le> length s \<and> map ascii_lower (take (length w) s) = str w
      then Some (drop (length w) s) else None)"

definition spec_whitespace :: "gostring \<Rightarrow> gostring option" where
  "spec_whitespace s =
     (case s of
        [] \<Rightarrow> None
      | x # xs \<Rightarrow> if perl_space x then Some (dropWhile perl_space xs) else None)"

definition spec_name_char :: "rune \<Rightarrow> bool" where
  "spec_name_char r =
     ((97 \<le> r \<and> r \<le> 122) \<or> (65 \<le> r \<and> r \<le> 90) \<or> (48 \<le> r \<and> r \<le> 57) \<or> r = 95)"

definition spec_after_static :: "gostring \<Rightarrow> gostring option" where
  "spec_after_static s =
     (case spec_keyword ''static'' s of
        None \<Rightarrow> None
      | Some s' \<Rightarrow> spec_whitespace s')"

definition spec_after_kind :: "gostring \<Rightarrow> gostring option" where
  "spec_after_kind s =
     (case spec_keyword ''function'' s of
        Some s' \<Rightarrow> Some s'
      | None \<Rightarrow> spec_keyword ''procedure'' s)"

definition spec_name :: "gostring \<Rightarrow> gostring option" where
  "spec_name s =
     (case spec_after_kind s of
        None \<Rightarrow> None
      | Some s' \<Rightarrow>
          (case spec_whitespace s' of
             None \<Rightarrow> None
           | Some s'' \<Rightarrow>
               (if takeWhile spec_name_char s'' = [] then None
                else Some (takeWhile spec_name_char s''))))"

definition spec_line_decl :: "gostring \<Rightarrow> (bool \<times> gostring) option" where
  "spec_line_decl line =
     (let s = dropWhile perl_space line
      in case spec_after_static s of
           Some s' \<Rightarrow> map_option (Pair True) (spec_name s')
         | None \<Rightarrow> map_option (Pair False) (spec_name s))"

section \<open>The declaration pattern in closed form\<close>

text \<open>
  What a match of \<open>declRegex\<close> amounts to, step by step; the steps are those of the rule
  of the specification, with the keywords and the name read as \<^verbatim>\<open>(?i)\<close> reads them.
\<close>

definition fold_keyword :: "string \<Rightarrow> gostring \<Rightarrow> gostring option" where
  "fold_keyword w s =
     (if length w \<le> length s \<and> list_all2 (\<lambda>ch x. fold_eq (of_char ch) x) w (take (length w) s)
      then Some (drop (length w) s) else None)"

definition fold_after_static :: "gostring \<Rightarrow> gostring option" where
  "fold_after_static s =
     (case fold_keyword ''static'' s of
        None \<Rightarrow> None
      | Some s' \<Rightarrow> spec_whitespace s')"

definition fold_after_kind :: "gostring \<Rightarrow> gostring option" where
  "fold_after_kind s =
     (case fold_keyword ''function'' s of
        Some s' \<Rightarrow> Some s'
      | None \<Rightarrow> fold_keyword ''procedure'' s)"

definition fold_name :: "gostring \<Rightarrow> gostring option" where
  "fold_name s =
     (case fold_after_kind s of
        None \<Rightarrow> None
      | Some s' \<Rightarrow>
          (case spec_whitespace s' of
             None \<Rightarrow> None
           | Some s'' \<Rightarrow>
               (if takeWhile name_class s'' = [] then None
                else Some (takeWhile name_class s''))))"

definition fold_line_decl :: "gostring \<Rightarrow> (bool \<times> gostring) option" where
  "fold_line_decl line =
     (let s = dropWhile perl_space line
      in case fold_after_static s of
           Some s' \<Rightarrow> map_option (Pair True) (fold_name s')
         | None \<Rightarrow> map_option (Pair False) (fold_name s))"

text \<open>The parts of \<open>declRegex\<close>, from the end.\<close>

abbreviation re_name :: re where
  "re_name \<equiv> Cap 3 (Plus (Cls name_class))"

abbreviation re_from_space :: re where
  "re_from_space \<equiv> Cat (Plus (Cls perl_space)) re_name"

abbreviation re_from_kind :: re where
  "re_from_kind \<equiv> Cat (Cap 2 (Alt (lit ''function'') (lit ''procedure''))) re_from_space"

abbreviation re_static :: re where
  "re_static \<equiv> Cap 1 (Cat (lit ''static'') (Plus (Cls perl_space)))"

abbreviation re_from_static :: re where
  "re_from_static \<equiv> Cat (Opt re_static) re_from_kind"

text \<open>The first and the third group of the preferred match, when there is a match.\<close>

definition first_groups :: "mstate list \<Rightarrow> (gostring \<times> gostring) option" where
  "first_groups states =
     (case states of
        [] \<Rightarrow> None
      | (s', c) # rest \<Rightarrow> Some (group c 1, group c 3))"

section \<open>Small trees for the concrete runs\<close>

text \<open>
  \<^verbatim>\<open>main.prg\<close> declares three globals; \<^verbatim>\<open>utils.prg\<close> declares a static procedure, uses it
  twice, refers to two of the globals, one of them in upper case, and declares a static
  function it never uses.
\<close>

definition main_prg :: gostring where
  "main_prg = str ''main.prg''"

definition utils_prg :: gostring where
  "utils_prg = str ''utils.prg''"

definition read_demo :: "gostring \<Rightarrow> gostring option" where
  "read_demo path =
     (if path = main_prg
      then Some (str ''function Func1'' @ [10] @ str ''function Func2'' @ [10] @
                 str ''Procedure MyProc'')
      else if path = utils_prg
      then Some (str ''static procedure Helper'' @ [10] @ str ''  Helper()'' @ [10] @
                 str ''  helper ( )'' @ [10] @ str ''Func2()'' @ [10] @ str ''MYPROC(1)'' @
                 [10] @ str ''static function Lonely'')
      else None)"

text \<open>
  \<^verbatim>\<open>a.prg\<close> and \<^verbatim>\<open>b.prg\<close> both declare the global \<^verbatim>\<open>Foo\<close> and a static \<^verbatim>\<open>Init\<close> of their
  own; no other path can be read.
\<close>

definition a_prg :: gostring where
  "a_prg = str ''a.prg''"

definition b_prg :: gostring where
  "b_prg = str ''b.prg''"

definition read_dup :: "gostring \<Rightarrow> gostring option" where
  "read_dup path =
     (if path = a_prg
      then Some (str ''function Foo'' @ [10] @ str ''static function Init'' @ [10] @
                 str ''Init()'')
      else if path = b_prg
      then Some (str ''FUNCTION Foo'' @ [10] @ str ''static function Init'' @ [10] @
                 str ''init()'' @ [10] @ str ''init()'')
      else None)"

text \<open>
  A root directory with \<^verbatim>\<open>a.prg\<close>, \<^verbatim>\<open>b.prg\<close>, a text file and a directory \<^verbatim>\<open>sub\<close> that holds
  \<^verbatim>\<open>X.PRG\<close>, a file no read succeeds on; and the same root when \<^verbatim>\<open>sub\<close> cannot be read.
\<close>

definition x_prg :: gostring where
  "x_prg = str ''sub/X.PRG''"

definition tree_demo :: fsnode where
  "tree_demo =
     DirEntry (str ''.'') (str ''.'')
       (Some [FileEntry a_prg (str ''a.prg''), FileEntry b_prg (str ''b.prg''),
              FileEntry (str ''notes.txt'') (str ''notes.txt''),
              DirEntry (str ''sub'') (str ''sub'') (Some [FileEntry x_prg (str ''X.PRG'')])])"

definition tree_locked :: fsnode where
  "tree_locked =
     DirEntry (str ''locked'') (str ''locked'')
       (Some [FileEntry (str ''locked/a.prg'') (str ''a.prg''),
              DirEntry (str ''locked/sub'') (str ''sub'') None])"

definition lstat_demo :: "gostring \<Rightarrow> fsnode option" where
  "lstat_demo path =
     (if path = str ''.'' then Some tree_demo
      else if path = str ''locked'' then Some tree_locked
      else None)"

text \<open>
  \<^verbatim>\<open>a.prg\<close> holds the line \<^verbatim>\<open>function Foo\<close> followed at once by the letter U+00E9, and
  \<^verbatim>\<open>b.prg\<close> the line \<^verbatim>\<open>function Foo\<close>.
\<close>

definition read_order :: "gostring \<Rightarrow> gostring option" where
  "read_order path =
     (if path = a_prg then Some (str ''function Foo'' @ [233])
      else if path = b_prg then Some (str ''function Foo'')
      else None)"

text \<open>
  \<^verbatim>\<open>a.prg\<close> declares the global \<^verbatim>\<open>Foo\<close> and \<^verbatim>\<open>b.prg\<close> the global \<^verbatim>\<open>FOO\<close>.
\<close>

definition read_case :: "gostring \<Rightarrow> gostring option" where
  "read_case path =
     (if path = a_prg then Some (str ''function Foo'')
      else if path = b_prg then Some (str ''function FOO'')
      else None)"

text \<open>
  Both files declare \<^verbatim>\<open>static procedure Helper\<close> with the letter U+00E9 at once after the
  name; \<^verbatim>\<open>a.prg\<close> then refers to \<^verbatim>\<open>Helper\<close> twice and \<^verbatim>\<open>b.prg\<close> once.
\<close>

definition read_helper :: "gostring \<Rightarrow> gostring option" where
  "read_helper path =
     (if path = a_prg
      then Some (str ''static procedure Helper'' @ [233] @ [10] @ str ''Helper()'' @ [10] @
                 str ''Helper()'')
      else if path = b_prg
      then Some (str ''static procedure Helper'' @ [233] @ [10] @ str ''Helper()'')
      else None)"

text \<open>
  A table of twenty globals, nine of them with the usage count 1 and eleven with 2, and a
  table of two globals, one of them used.
\<close>

definition table_11_of_20 :: symtab where
  "table_11_of_20 =
     \<lparr>globalFunctions =
        map (\<lambda>i. (str ''F'' @ [i], new_global (str ''F'' @ [i]) a_prg (if i < 74 then 1 else 2)))
          [65..<85],
      staticFunctions = [], stdout = []\<rparr>"

definition table_1_of_2 :: symtab where
  "table_1_of_2 =
     \<lparr>globalFunctions =
        [(str ''Func1'', new_global (str ''Func1'') main_prg 1),
         (str ''Func2'', new_global (str ''Func2'') main_prg 2)],
      staticFunctions = [], stdout = []\<rparr>"

section \<open>Association lists and token counts\<close>

lemma set_update_cases:
  "(a, b) \<in> set (AList.update k v al) \<Longrightarrow> (a, b) = (k, v) \<or> (a, b) \<in> set al"
  by (induction al) (auto split: if_splits)

lemma list_all_update:
  "list_all P al \<Longrightarrow> P (k, v) \<Longrightarrow> list_all P (AList.update k v al)"
  unfolding list_all_iff using set_update_cases by fastforce

lemma map_of_map_snd:
  "map_of (map (\<lambda>(k, v). (k, f v)) al) = (\<lambda>k. map_option f (map_of al k))"
  by (induction al) (auto simp: fun_eq_iff)

lemma map_fst_map_snd: "map fst (map (\<lambda>(k, v). (k, f v)) al) = map fst al"
  by (induction al) auto

lemma int_length_concat: "int (length (concat xss)) = (\<Sum>xs\<leftarrow>xss. int (length xs))"
  by (induction xss) auto

lemma freq_of_foldl:
  "foldl (\<lambda>freq token. freq(token := freq token + 1)) g tokens t = g t + int (count_list tokens t)"
  by (induction tokens arbitrary: g) auto

lemma freq_of_count: "freq_of tokens t = int (count_list tokens t)"
  by (simp add: freq_of_def freq_of_foldl)

lemma file_freq_nonneg: "0 \<le> file_freq T content t"
  by (simp add: file_freq_def freq_of_count)

section \<open>The wrap-around of the counter\<close>

lemma wrap_int64_id: "- (2 ^ 63) \<le> x \<Longrightarrow> x < 2 ^ 63 \<Longrightarrow> wrap_int64 x = x"
  by (simp add: wrap_int64_def)

lemma wrap_int64_add_left: "wrap_int64 (wrap_int64 a + b) = wrap_int64 (a + b)"
proof -
  have "wrap_int64 a + b + 2 ^ 63 = (a + 2 ^ 63) mod 2 ^ 64 + b"
    by (simp add: wrap_int64_def)
  then have "(wrap_int64 a + b + 2 ^ 63) mod 2 ^ 64 = ((a + 2 ^ 63) mod 2 ^ 64 + b) mod 2 ^ 64"
    by (rule arg_cong)
  also have "\<dots> = (a + 2 ^ 63 + b) mod 2 ^ 64"
    by (rule mod_add_left_eq)
  also have "a + 2 ^ 63 + b = a + b + 2 ^ 63"
    by simp
  finally show ?thesis unfolding wrap_int64_def by (rule arg_cong)
qed

lemma wrap_int64_1 [simp]: "wrap_int64 1 = 1"
  by (simp add: wrap_int64_def)

section \<open>The declaration phase, by look-ups\<close>

lemma register_stdout [simp]: "stdout (register file s n st) = stdout st"
  by (simp add: register_def split: option.splits)

lemma global_decl_register:
  "global_decl (register file s n st) m =
     (if \<not> s \<and> m = n
      then (case global_decl st n of
              Some gf \<Rightarrow> Some (gf\<lparr>UsageCount := wrap_int64 (UsageCount gf + 1)\<rparr>)
            | None \<Rightarrow> Some \<lparr>Name = n, File = file, Static = False, UsageCount = 1\<rparr>)
      else global_decl st m)"
  by (simp add: register_def global_decl_def update_conv' split: option.splits)

lemma static_decl_register:
  "static_decl (register file s n st) g m =
     (if s \<and> g = file \<and> m = n
      then Some \<lparr>Name = n, File = file, Static = True, UsageCount = 1\<rparr>
      else static_decl st g m)"
  by (simp add: register_def static_decl_def update_conv' split: option.splits)

lemma occurrences_nonneg: "0 \<le> occurrences T rf f n"
  by (simp add: occurrences_def file_freq_nonneg split: option.splits)

lemma global_added_nonneg: "0 \<le> global_added T rf f n f0"
  using occurrences_nonneg [of T rf f n] by (auto simp: global_added_def Let_def)

lemma static_added_nonneg: "0 \<le> static_added T rf f n"
  using occurrences_nonneg [of T rf f n] by (simp add: static_added_def Let_def)

lemma global_added_le: "global_added T rf f n f0 \<le> occurrences T rf f n"
  by (simp add: global_added_def Let_def)

lemma static_added_le: "static_added T rf f n \<le> occurrences T rf f n"
  by (simp add: static_added_def Let_def)

lemma bump_simps [simp]:
  "Name (bump k d) = Name d" "File (bump k d) = File d" "Static (bump k d) = Static d"
  "bump 0 d = d"
  by (simp_all add: bump_def)

lemma UsageCount_bump:
  "UsageCount (bump k d) = (if 0 < k then wrap_int64 (UsageCount d + k) else UsageCount d)"
  by (simp add: bump_def)

lemma bump_bump: "0 \<le> k \<Longrightarrow> 0 \<le> j \<Longrightarrow> bump j (bump k d) = bump (k + j) d"
  by (auto simp: bump_def wrap_int64_add_left add.assoc)

lemma new_global_sel [simp]:
  "Name (new_global n f k) = n" "File (new_global n f k) = f"
  "Static (new_global n f k) = False" "UsageCount (new_global n f k) = k"
  by (simp_all add: new_global_def)

lemma new_static_sel [simp]:
  "Name (new_static n f k) = n" "File (new_static n f k) = f"
  "Static (new_static n f k) = True" "UsageCount (new_static n f k) = k"
  by (simp_all add: new_static_def)

lemma bump_new_global:
  "0 \<le> j \<Longrightarrow> bump j (new_global n f (wrap_int64 k)) = new_global n f (wrap_int64 (k + j))"
  by (auto simp: bump_def new_global_def wrap_int64_add_left)

lemma bump_new_static:
  "0 \<le> j \<Longrightarrow> bump j (new_static n f (wrap_int64 k)) = new_static n f (wrap_int64 (k + j))"
  by (auto simp: bump_def new_static_def wrap_int64_add_left)

lemma bump_new_global_1:
  "0 \<le> j \<Longrightarrow> bump j (new_global n f 1) = new_global n f (wrap_int64 (1 + j))"
  using bump_new_global [of j n f 1] by simp

lemma bump_new_static_1:
  "0 \<le> j \<Longrightarrow> bump j (new_static n f 1) = new_static n f (wrap_int64 (1 + j))"
  using bump_new_static [of j n f 1] by simp

lemma register_bump:
  "global_decl (register file False n st) n =
     (case global_decl st n of
        Some gf \<Rightarrow> Some (bump 1 gf)
      | None \<Rightarrow> Some (new_global n file 1))"
  by (simp add: global_decl_register bump_def new_global_def split: option.splits)

lemma global_decl_foldl_register:
  "global_decl (foldl (\<lambda>st (s, m). register file s m st) st ds) n =
     (let k = int (length (filter (\<lambda>x. x = (False, n)) ds))
      in if k = 0 then global_decl st n
         else (case global_decl st n of
                 Some gf \<Rightarrow> Some (bump k gf)
               | None \<Rightarrow> Some (new_global n file (wrap_int64 k))))"
proof (induction ds arbitrary: st)
  case Nil
  show ?case by simp
next
  case (Cons x ds)
  obtain s m where x: "x = (s, m)" by (cases x)
  let ?k = "int (length (filter (\<lambda>x. x = (False, n)) ds))"
  have nn: "0 \<le> ?k" by simp
  show ?case
  proof (cases "x = (False, n)")
    case False
    then have "global_decl (register file s m st) n = global_decl st n"
      using x by (auto simp: global_decl_register)
    with False show ?thesis
      using Cons.IH [of "register file s m st"] by (auto simp: x Let_def)
  next
    case True
    then have sm: "s = False" "m = n" using x by simp_all
    show ?thesis
    proof (cases "global_decl st n")
      case None
      then have "global_decl (register file s m st) n = Some (new_global n file 1)"
        by (simp add: sm register_bump)
      then show ?thesis
        using Cons.IH [of "register file s m st"] nn None
        by (simp add: x sm Let_def bump_new_global_1)
    next
      case (Some gf)
      then have "global_decl (register file s m st) n = Some (bump 1 gf)"
        by (simp add: sm register_bump)
      then show ?thesis
        using Cons.IH [of "register file s m st"] nn Some
        by (simp add: x sm Let_def bump_bump)
    qed
  qed
qed

lemma static_decl_foldl_register:
  "static_decl (foldl (\<lambda>st (s, m). register file s m st) st ds) g n =
     (if g = file \<and> (True, n) \<in> set ds then Some (new_static n file 1) else static_decl st g n)"
proof (induction ds arbitrary: st)
  case Nil
  show ?case by simp
next
  case (Cons x ds)
  obtain s m where x: "x = (s, m)" by (cases x)
  show ?case
    using Cons.IH [of "register file s m st"]
    by (auto simp: x static_decl_register new_static_def)
qed

lemma foldl_process_line:
  "foldl (process_line file) st ls =
     foldl (\<lambda>st (s, m). register file s m st) st (List.map_filter line_decl ls)"
  by (induction ls arbitrary: st)
     (auto simp: process_line_def List.map_filter_simps split: option.splits)

lemma processFileForDeclarations_Some:
  "rf file = Some content \<Longrightarrow>
   processFileForDeclarations rf file st =
     foldl (\<lambda>st (s, m). register file s m st) st (file_decls rf file)"
  by (simp add: processFileForDeclarations_def file_decls_def foldl_process_line)

lemma processFileForDeclarations_None:
  "rf file = None \<Longrightarrow>
   processFileForDeclarations rf file st = st\<lparr>stdout := stdout st @ [file]\<rparr>"
  by (simp add: processFileForDeclarations_def)

lemma file_decls_None: "rf file = None \<Longrightarrow> file_decls rf file = []"
  by (simp add: file_decls_def)

lemma global_decl_stdout [simp]: "global_decl (st\<lparr>stdout := x\<rparr>) = global_decl st"
  by (simp add: global_decl_def fun_eq_iff)

lemma static_decl_stdout [simp]: "static_decl (st\<lparr>stdout := x\<rparr>) = static_decl st"
  by (simp add: static_decl_def fun_eq_iff)

lemma global_decl_file:
  "global_decl (processFileForDeclarations rf file st) n =
     (let k = global_lines rf file n
      in if k = 0 then global_decl st n
         else (case global_decl st n of
                 Some gf \<Rightarrow> Some (bump k gf)
               | None \<Rightarrow> Some (new_global n file (wrap_int64 k))))"
proof (cases "rf file")
  case None
  then show ?thesis
    by (simp add: processFileForDeclarations_None global_lines_def file_decls_None)
next
  case (Some content)
  then show ?thesis
    by (simp add: processFileForDeclarations_Some global_decl_foldl_register global_lines_def)
qed

lemma static_decl_file:
  "static_decl (processFileForDeclarations rf file st) g n =
     (if g = file \<and> static_declared rf file n then Some (new_static n file 1)
      else static_decl st g n)"
proof (cases "rf file")
  case None
  then show ?thesis
    by (simp add: processFileForDeclarations_None static_declared_def file_decls_None)
next
  case (Some content)
  then show ?thesis
    by (simp add: processFileForDeclarations_Some static_decl_foldl_register static_declared_def)
qed

lemma global_lines_nonneg: "0 \<le> global_lines rf f n"
  by (simp add: global_lines_def)

lemma sum_global_lines_nonneg: "0 \<le> (\<Sum>f\<leftarrow>files. global_lines rf f n)"
  by (induction files) (auto simp: global_lines_nonneg)

lemma global_decl_phase:
  "global_decl (ProcessDeclarationsConcurrently rf files st) n =
     (let k = (\<Sum>f\<leftarrow>files. global_lines rf f n)
      in case global_decl st n of
           Some gf \<Rightarrow> Some (bump k gf)
         | None \<Rightarrow>
             (case filter (\<lambda>f. 0 < global_lines rf f n) files of
                [] \<Rightarrow> None
              | f0 # fs \<Rightarrow> Some (new_global n f0 (wrap_int64 k))))"
  unfolding ProcessDeclarationsConcurrently_def
proof (induction files arbitrary: st)
  case Nil
  show ?case by (simp split: option.splits)
next
  case (Cons f files)
  have nn: "0 \<le> global_lines rf f n" by (rule global_lines_nonneg)
  have nn': "0 \<le> (\<Sum>f\<leftarrow>files. global_lines rf f n)" by (rule sum_global_lines_nonneg)
  note IH = Cons.IH [of "processFileForDeclarations rf f st"]
  show ?case
  proof (cases "global_decl st n")
    case (Some gf)
    then have "global_decl (processFileForDeclarations rf f st) n = Some (bump (global_lines rf f n) gf)"
      by (simp add: global_decl_file Let_def)
    then show ?thesis using IH Some nn nn' by (simp add: Let_def bump_bump)
  next
    case None
    show ?thesis
    proof (cases "global_lines rf f n = 0")
      case True
      then have "global_decl (processFileForDeclarations rf f st) n = None"
        using None by (simp add: global_decl_file Let_def)
      then show ?thesis using IH None True by (simp add: Let_def)
    next
      case False
      then have pos: "0 < global_lines rf f n" using nn by simp
      have "global_decl (processFileForDeclarations rf f st) n =
          Some (new_global n f (wrap_int64 (global_lines rf f n)))"
        using None False by (simp add: global_decl_file Let_def)
      then show ?thesis using IH None pos nn' by (simp add: Let_def bump_new_global)
    qed
  qed
qed

lemma static_decl_phase:
  "static_decl (ProcessDeclarationsConcurrently rf files st) g n =
     (if g \<in> set files \<and> static_declared rf g n then Some (new_static n g 1)
      else static_decl st g n)"
  unfolding ProcessDeclarationsConcurrently_def
proof (induction files arbitrary: st)
  case Nil
  show ?case by simp
next
  case (Cons f files)
  show ?case
    using Cons.IH [of "processFileForDeclarations rf f st"]
    by (auto simp: static_decl_file)
qed

section \<open>The usage phase, by look-ups\<close>

lemma use_global_bump:
  "rf f = Some content \<Longrightarrow>
   use_global T f (file_freq T content) d = bump (global_added T rf f (Name d) (File d)) d"
  using file_freq_nonneg [of T content "strings_ToLower T (Name d)"]
  by (auto simp: use_global_def global_added_def occurrences_def Let_def bump_def)

lemma use_static_bump:
  "rf f = Some content \<Longrightarrow>
   use_static T (file_freq T content) d = bump (static_added T rf f (Name d)) d"
  using file_freq_nonneg [of T content "strings_ToLower T (Name d)"]
  by (auto simp: use_static_def static_added_def occurrences_def Let_def bump_def)

lemma global_added_None [simp]: "rf file = None \<Longrightarrow> global_added T rf file n f0 = 0"
  by (simp add: global_added_def occurrences_def)

lemma static_added_None [simp]: "rf file = None \<Longrightarrow> static_added T rf file n = 0"
  by (simp add: static_added_def occurrences_def)

lemma global_decl_usage_file:
  "global_decl (processFileForUsage T rf file st) n =
     map_option (\<lambda>d. bump (global_added T rf file (Name d) (File d)) d) (global_decl st n)"
proof (cases "rf file")
  case None
  then show ?thesis
    by (simp add: processFileForUsage_def option.map_ident_strong)
next
  case (Some content)
  then show ?thesis
    by (simp add: processFileForUsage_def Let_def global_decl_def map_of_map_snd
        use_global_bump [where rf = rf and content = content])
qed

lemma static_decl_usage_file:
  "static_decl (processFileForUsage T rf file st) g n =
     (if g = file
      then map_option (\<lambda>d. bump (static_added T rf file (Name d)) d) (static_decl st g n)
      else static_decl st g n)"
proof (cases "rf file")
  case None
  then show ?thesis
    by (simp add: processFileForUsage_def option.map_ident_strong)
next
  case (Some content)
  then show ?thesis
    by (auto simp: processFileForUsage_def Let_def static_decl_def map_of_map_snd
        update_conv' use_static_bump [where rf = rf and content = content] split: option.splits)
qed

lemma sum_global_added_nonneg: "0 \<le> (\<Sum>f\<leftarrow>files. global_added T rf f n f0)"
  by (induction files) (auto simp: global_added_nonneg)

lemma sum_static_added_nonneg:
  "0 \<le> (\<Sum>f\<leftarrow>files. if f = g then static_added T rf f n else 0)"
  by (induction files) (auto simp: static_added_nonneg)

lemma global_decl_usage_phase:
  "global_decl (ProcessUsageConcurrently T rf files st) n =
     map_option (\<lambda>d. bump (\<Sum>f\<leftarrow>files. global_added T rf f (Name d) (File d)) d)
       (global_decl st n)"
  unfolding ProcessUsageConcurrently_def
proof (induction files arbitrary: st)
  case Nil
  show ?case by (simp add: option.map_ident_strong)
next
  case (Cons f files)
  show ?case
  proof (cases "global_decl st n")
    case None
    then show ?thesis
      using Cons.IH [of "processFileForUsage T rf f st"] by (simp add: global_decl_usage_file)
  next
    case (Some d)
    then show ?thesis
      using Cons.IH [of "processFileForUsage T rf f st"]
        global_added_nonneg [of T rf f "Name d" "File d"]
        sum_global_added_nonneg [where files = files and T = T and rf = rf and n = "Name d"
          and ?f0.0 = "File d"]
      by (simp add: global_decl_usage_file bump_bump)
  qed
qed

lemma static_decl_usage_phase:
  "static_decl (ProcessUsageConcurrently T rf files st) g n =
     map_option
       (\<lambda>d. bump (\<Sum>f\<leftarrow>files. if f = g then static_added T rf f (Name d) else 0) d)
       (static_decl st g n)"
  unfolding ProcessUsageConcurrently_def
proof (induction files arbitrary: st)
  case Nil
  show ?case by (simp add: option.map_ident_strong)
next
  case (Cons f files)
  show ?case
  proof (cases "static_decl st g n")
    case None
    then show ?thesis
      using Cons.IH [of "processFileForUsage T rf f st"] by (auto simp: static_decl_usage_file)
  next
    case (Some d)
    then show ?thesis
      using Cons.IH [of "processFileForUsage T rf f st"]
        static_added_nonneg [of T rf f "Name d"]
        sum_static_added_nonneg [where files = files and g = g and T = T and rf = rf
          and n = "Name d"]
      by (auto simp: static_decl_usage_file bump_bump cong: if_cong)
  qed
qed

lemma global_decl_init [simp]: "global_decl init n = None"
  by (simp add: global_decl_def init_def)

lemma static_decl_init [simp]: "static_decl init g n = None"
  by (simp add: static_decl_def init_def)

text \<open>The two phases together.\<close>

lemma global_decl_scan:
  "global_decl (scan T rf files) n =
     (case filter (\<lambda>f. 0 < global_lines rf f n) files of
        [] \<Rightarrow> None
      | f0 # fs \<Rightarrow>
          Some (new_global n f0
                  (wrap_int64 ((\<Sum>f\<leftarrow>files. global_lines rf f n) +
                               (\<Sum>f\<leftarrow>files. global_added T rf f n f0)))))"
  by (simp add: scan_def global_decl_usage_phase global_decl_phase Let_def bump_new_global
      sum_global_added_nonneg split: list.splits)

lemma static_decl_scan:
  "static_decl (scan T rf files) g n =
     (if g \<in> set files \<and> static_declared rf g n
      then Some (new_static n g
                   (wrap_int64 (1 + (\<Sum>f\<leftarrow>files. if f = g then static_added T rf f n else 0))))
      else None)"
proof -
  have "0 \<le> (\<Sum>f\<leftarrow>files. if f = g then static_added T rf g n else 0)"
    by (induction files) (auto simp: static_added_nonneg)
  then show ?thesis
    by (simp add: scan_def static_decl_usage_phase static_decl_phase bump_new_static_1
        cong: if_cong)
qed


text \<open>Below \<open>2^63\<close> the counters are the sums themselves.\<close>

lemma sum_global_added_le:
  "(\<Sum>f\<leftarrow>files. global_added T rf f n f0) \<le> (\<Sum>f\<leftarrow>files. occurrences T rf f n)"
  by (induction files) (auto simp: add_mono global_added_le)

lemma sum_occurrences_nonneg: "0 \<le> (\<Sum>f\<leftarrow>files. occurrences T rf f n)"
  by (induction files) (auto simp: occurrences_nonneg)

lemma global_count_below:
  assumes "(\<Sum>f\<leftarrow>files. global_lines rf f n) + (\<Sum>f\<leftarrow>files. occurrences T rf f n) < 2 ^ 63"
  shows "wrap_int64 ((\<Sum>f\<leftarrow>files. global_lines rf f n) +
                     (\<Sum>f\<leftarrow>files. global_added T rf f n f0)) =
         (\<Sum>f\<leftarrow>files. global_lines rf f n) + (\<Sum>f\<leftarrow>files. global_added T rf f n f0)"
proof (rule wrap_int64_id)
  have "0 \<le> (\<Sum>f\<leftarrow>files. global_lines rf f n) + (\<Sum>f\<leftarrow>files. global_added T rf f n f0)"
    using sum_global_lines_nonneg [where files = files and rf = rf and n = n]
      sum_global_added_nonneg [where files = files and T = T and rf = rf and n = n
        and ?f0.0 = f0]
    by simp
  then show "- (2 ^ 63) \<le> (\<Sum>f\<leftarrow>files. global_lines rf f n) +
      (\<Sum>f\<leftarrow>files. global_added T rf f n f0)"
    by simp
  show "(\<Sum>f\<leftarrow>files. global_lines rf f n) + (\<Sum>f\<leftarrow>files. global_added T rf f n f0) < 2 ^ 63"
    using assms sum_global_added_le [where files = files and T = T and rf = rf and n = n
        and ?f0.0 = f0]
    by simp
qed

lemma sum_static_added_le:
  "g \<in> set files \<Longrightarrow> 0 < occurrences T rf g n \<Longrightarrow>
   1 + (\<Sum>f\<leftarrow>files. if f = g then static_added T rf f n else 0) \<le>
     (\<Sum>f\<leftarrow>files. occurrences T rf f n)"
proof (induction files)
  case Nil
  then show ?case by simp
next
  case (Cons f files)
  have le: "(\<Sum>f\<leftarrow>files. if f = g then static_added T rf f n else 0) \<le>
      (\<Sum>f\<leftarrow>files. occurrences T rf f n)"
    by (induction files) (auto simp: add_mono static_added_le occurrences_nonneg add_increasing)
  show ?case
  proof (cases "f = g")
    case True
    have "1 + static_added T rf g n = occurrences T rf g n"
      using Cons.prems(2) by (simp add: static_added_def Let_def)
    with True le show ?thesis by simp
  next
    case False
    with Cons have "1 + (\<Sum>f\<leftarrow>files. if f = g then static_added T rf f n else 0) \<le>
        (\<Sum>f\<leftarrow>files. occurrences T rf f n)"
      by simp
    with False occurrences_nonneg [of T rf f n] show ?thesis by simp
  qed
qed

lemma static_count_below:
  assumes "(\<Sum>f\<leftarrow>files. occurrences T rf f n) < 2 ^ 63"
  shows "wrap_int64 (1 + (\<Sum>f\<leftarrow>files. if f = g then static_added T rf f n else 0)) =
         1 + (\<Sum>f\<leftarrow>files. if f = g then static_added T rf f n else 0)"
proof (cases "g \<in> set files \<and> 0 < occurrences T rf g n")
  case True
  then have "1 + (\<Sum>f\<leftarrow>files. if f = g then static_added T rf f n else 0) \<le>
      (\<Sum>f\<leftarrow>files. occurrences T rf f n)"
    by (simp add: sum_static_added_le)
  with assms sum_static_added_nonneg [where files = files and g = g and T = T and rf = rf
      and n = n]
  show ?thesis by (intro wrap_int64_id) simp_all
next
  case False
  have "(if f = g then static_added T rf f n else 0) = 0" if "f \<in> set files" for f
    using that False occurrences_nonneg [of T rf g n] by (auto simp: static_added_def Let_def)
  then have "(\<Sum>f\<leftarrow>files. if f = g then static_added T rf f n else 0) = 0"
    by (induction files) auto
  then show ?thesis by simp
qed

section \<open>What every table of a scan satisfies\<close>

lemma funcs_ok_update: "funcs_ok al \<Longrightarrow> Name v = k \<Longrightarrow> funcs_ok (AList.update k v al)"
  by (simp add: funcs_ok_def distinct_update list_all_update)

lemma funcs_ok_Nil [simp]: "funcs_ok []"
  by (simp add: funcs_ok_def)

lemma funcs_ok_map:
  "funcs_ok al \<Longrightarrow> (\<And>d. Name (h d) = Name d) \<Longrightarrow> funcs_ok (map (\<lambda>(k, d). (k, h d)) al)"
  unfolding funcs_ok_def map_fst_map_snd by (auto simp: list_all_iff)

lemma table_ok_init: "table_ok init"
  by (simp add: table_ok_def init_def)

lemma table_ok_stdout [simp]: "table_ok (st\<lparr>stdout := x\<rparr>) = table_ok st"
  by (simp add: table_ok_def)

lemma table_ok_register:
  assumes ok: "table_ok st"
  shows "table_ok (register f s n st)"
proof (cases s)
  case True
  define old where "old = (case map_of (staticFunctions st) f of None \<Rightarrow> [] | Some funcs \<Rightarrow> funcs)"
  have old_ok: "funcs_ok old \<and> list_all (\<lambda>(name, decl). File decl = f \<and> Static decl) old"
  proof (cases "map_of (staticFunctions st) f")
    case None
    then show ?thesis by (simp add: old_def)
  next
    case (Some funcs)
    then have "(f, funcs) \<in> set (staticFunctions st)" by (rule map_of_SomeD)
    with ok show ?thesis by (auto simp: old_def Some table_ok_def list_all_iff)
  qed
  have new_ok: "funcs_ok (AList.update n \<lparr>Name = n, File = f, Static = True, UsageCount = 1\<rparr> old) \<and>
      list_all (\<lambda>(name, decl). File decl = f \<and> Static decl)
        (AList.update n \<lparr>Name = n, File = f, Static = True, UsageCount = 1\<rparr> old)"
    using old_ok by (simp add: funcs_ok_update list_all_update)
  have "register f s n st =
      st\<lparr>staticFunctions := AList.update f
            (AList.update n \<lparr>Name = n, File = f, Static = True, UsageCount = 1\<rparr> old)
            (staticFunctions st)\<rparr>"
    by (simp add: register_def True old_def)
  then show ?thesis
    using ok new_ok by (simp add: table_ok_def distinct_update list_all_update)
next
  case False
  show ?thesis
  proof (cases "map_of (globalFunctions st) n")
    case None
    then show ?thesis
      using ok False
      by (simp add: register_def table_ok_def funcs_ok_update list_all_update)
  next
    case (Some gf)
    then have "(n, gf) \<in> set (globalFunctions st)" by (rule map_of_SomeD)
    with ok have "Name gf = n \<and> \<not> Static gf"
      by (auto simp: table_ok_def funcs_ok_def list_all_iff)
    then show ?thesis
      using ok False Some
      by (simp add: register_def table_ok_def funcs_ok_update list_all_update)
  qed
qed

lemma table_ok_foldl_register:
  "table_ok st \<Longrightarrow> table_ok (foldl (\<lambda>st (s, m). register f s m st) st ds)"
  by (induction ds arbitrary: st) (auto simp: table_ok_register)

lemma table_ok_decl_file: "table_ok st \<Longrightarrow> table_ok (processFileForDeclarations rf f st)"
  by (cases "rf f")
     (simp_all add: processFileForDeclarations_None processFileForDeclarations_Some
        table_ok_foldl_register)

lemma table_ok_decl_phase:
  "table_ok st \<Longrightarrow> table_ok (ProcessDeclarationsConcurrently rf files st)"
  unfolding ProcessDeclarationsConcurrently_def
  by (induction files arbitrary: st) (auto simp: table_ok_decl_file)

lemma use_global_sel [simp]:
  "Name (use_global T f fr d) = Name d" "File (use_global T f fr d) = File d"
  "Static (use_global T f fr d) = Static d"
  by (simp_all add: use_global_def Let_def)

lemma use_static_sel [simp]:
  "Name (use_static T fr d) = Name d" "File (use_static T fr d) = File d"
  "Static (use_static T fr d) = Static d"
  by (simp_all add: use_static_def Let_def)

lemma table_ok_usage_file:
  assumes ok: "table_ok st"
  shows "table_ok (processFileForUsage T rf f st)"
proof (cases "rf f")
  case None
  then show ?thesis using ok by (simp add: processFileForUsage_def)
next
  case (Some content)
  define fr where "fr = file_freq T content"
  have g: "funcs_ok (map (\<lambda>(name, decl). (name, use_global T f fr decl)) (globalFunctions st)) \<and>
      list_all (\<lambda>(name, decl). \<not> Static decl)
        (map (\<lambda>(name, decl). (name, use_global T f fr decl)) (globalFunctions st))"
    using ok by (auto simp: table_ok_def funcs_ok_map list_all_iff)
  show ?thesis
  proof (cases "map_of (staticFunctions st) f")
    case None
    then show ?thesis
      using ok g Some by (simp add: processFileForUsage_def Let_def fr_def table_ok_def)
  next
    case sf: (Some funcs)
    then have "(f, funcs) \<in> set (staticFunctions st)" by (rule map_of_SomeD)
    with ok have "funcs_ok funcs \<and> list_all (\<lambda>(name, decl). File decl = f \<and> Static decl) funcs"
      by (auto simp: table_ok_def list_all_iff)
    then have "funcs_ok (map (\<lambda>(name, decl). (name, use_static T fr decl)) funcs) \<and>
        list_all (\<lambda>(name, decl). File decl = f \<and> Static decl)
          (map (\<lambda>(name, decl). (name, use_static T fr decl)) funcs)"
      by (auto simp: funcs_ok_map list_all_iff)
    then show ?thesis
      using ok g Some sf
      by (simp add: processFileForUsage_def Let_def fr_def table_ok_def distinct_update
          list_all_update)
  qed
qed

lemma table_ok_usage_phase:
  "table_ok st \<Longrightarrow> table_ok (ProcessUsageConcurrently T rf files st)"
  unfolding ProcessUsageConcurrently_def
  by (induction files arbitrary: st) (auto simp: table_ok_usage_file)

lemma table_ok_scan: "table_ok (scan T rf files)"
  by (simp add: scan_def table_ok_usage_phase table_ok_decl_phase table_ok_init)

section \<open>The unused declarations, by look-ups\<close>

lemma table_ok_global:
  "table_ok st \<Longrightarrow>
   ((n, d) \<in> set (globalFunctions st)) = (global_decl st n = Some d)"
  by (simp add: table_ok_def funcs_ok_def global_decl_def)

lemma table_ok_global_Name: "table_ok st \<Longrightarrow> global_decl st n = Some d \<Longrightarrow> Name d = n"
  by (auto simp: table_ok_def funcs_ok_def global_decl_def list_all_iff dest!: map_of_SomeD)

lemma table_ok_static:
  assumes ok: "table_ok st"
  shows "(\<exists>funcs. (g, funcs) \<in> set (staticFunctions st) \<and> (n, d) \<in> set funcs) =
         (static_decl st g n = Some d)"
proof
  assume "\<exists>funcs. (g, funcs) \<in> set (staticFunctions st) \<and> (n, d) \<in> set funcs"
  then obtain funcs where m: "(g, funcs) \<in> set (staticFunctions st)" "(n, d) \<in> set funcs"
    by blast
  from ok have "distinct (map fst (staticFunctions st))" by (simp add: table_ok_def)
  with m(1) have "map_of (staticFunctions st) g = Some funcs" by simp
  moreover from ok m(1) have "distinct (map fst funcs)"
    by (auto simp: table_ok_def funcs_ok_def list_all_iff)
  with m(2) have "map_of funcs n = Some d" by simp
  ultimately show "static_decl st g n = Some d" by (simp add: static_decl_def)
next
  assume "static_decl st g n = Some d"
  then obtain funcs where "map_of (staticFunctions st) g = Some funcs" "map_of funcs n = Some d"
    by (auto simp: static_decl_def split: option.splits)
  then show "\<exists>funcs. (g, funcs) \<in> set (staticFunctions st) \<and> (n, d) \<in> set funcs"
    by (blast dest: map_of_SomeD)
qed

lemma table_ok_static_Name:
  "table_ok st \<Longrightarrow> static_decl st g n = Some d \<Longrightarrow> Name d = n \<and> File d = g"
  by (auto simp: table_ok_def funcs_ok_def static_decl_def list_all_iff
      split: option.splits dest!: map_of_SomeD)

lemma unused_global_iff:
  assumes "table_ok st"
  shows "((n, f) \<in> set (fst (GetUnusedDeclarations st))) =
         (\<exists>d. global_decl st n = Some d \<and> File d = f \<and> UsageCount d \<le> 1)"
  using assms table_ok_global [OF assms] table_ok_global_Name [OF assms]
  by (fastforce simp: GetUnusedDeclarations_def image_iff)

lemma unused_static_iff:
  assumes "table_ok st"
  shows "((n, g) \<in> set (snd (GetUnusedDeclarations st))) =
         (\<exists>d. static_decl st g n = Some d \<and> UsageCount d \<le> 1)"
proof
  assume "(n, g) \<in> set (snd (GetUnusedDeclarations st))"
  then obtain funcs k d where
    "(g, funcs) \<in> set (staticFunctions st)" "(k, d) \<in> set funcs" "UsageCount d \<le> 1" "Name d = n"
    by (auto simp: GetUnusedDeclarations_def)
  moreover then have "static_decl st g k = Some d"
    using table_ok_static [OF assms] by blast
  ultimately show "\<exists>d. static_decl st g n = Some d \<and> UsageCount d \<le> 1"
    using table_ok_static_Name [OF assms] by blast
next
  assume "\<exists>d. static_decl st g n = Some d \<and> UsageCount d \<le> 1"
  then obtain d where d: "static_decl st g n = Some d" "UsageCount d \<le> 1" by blast
  then obtain funcs where "(g, funcs) \<in> set (staticFunctions st)" "(n, d) \<in> set funcs"
    using table_ok_static [OF assms] by blast
  moreover have "Name d = n" using table_ok_static_Name [OF assms d(1)] by simp
  ultimately show "(n, g) \<in> set (snd (GetUnusedDeclarations st))"
    using d(2) by (force simp: GetUnusedDeclarations_def)
qed

section \<open>Evaluating the concrete runs\<close>

lemmas eval_defs =
  scan_def ProcessUsageConcurrently_def ProcessDeclarationsConcurrently_def
  processFileForUsage_def processFileForDeclarations_def process_line_def register_def init_def
  use_global_def use_static_def global_decl_def static_decl_def line_decl_def
  FindStringSubmatch_def match_here_def declRegex_def lit_def Plus_def str_def fold_eq_def
  perl_space_def name_class_def group_def strings_TrimSpace_def unicode_IsSpace_def
  occurrences_def file_freq_def freq_of_def tokenize_def strings_ToLower_def
  unicode_ToLower_def unicode_IsLetter_def unicode_IsDigit_def latin1_letter_def
  file_decls_def global_lines_def static_declared_def wrap_int64_def
  new_global_def new_static_def Let_def GetUnusedDeclarations_def
  read_demo_def utils_prg_def main_prg_def read_dup_def a_prg_def b_prg_def
  x_prg_def read_order_def read_case_def read_helper_def

section \<open>Evaluating the rule of the specification\<close>

lemmas spec_defs =
  spec_line_decl_def spec_name_def spec_after_kind_def spec_after_static_def
  spec_name_char_def spec_whitespace_def spec_keyword_def ascii_lower_def

section \<open>The statistics\<close>

lemma bit_length_bounds: "0 < n \<Longrightarrow> 2 ^ (bit_length n - 1) \<le> n \<and> n < 2 ^ bit_length n"
proof (induction n rule: bit_length.induct)
  case (1 n)
  show ?case
  proof (cases "n div 2 = 0")
    case True
    with 1(2) have "n = 1" by (simp add: div_eq_0_iff) 
    then show ?thesis by (simp add: bit_length.simps)
  next
    case False
    then have pos: "0 < n div 2" by simp
    from 1(1) [OF _ pos] 1(2)
    have IH: "2 ^ (bit_length (n div 2) - 1) \<le> n div 2 \<and> n div 2 < 2 ^ bit_length (n div 2)"
      by simp
    have b: "bit_length n = Suc (bit_length (n div 2))"
      using 1(2) by (subst bit_length.simps) simp
    have bp: "0 < bit_length (n div 2)"
      using pos by (subst bit_length.simps) simp
    have "2 ^ bit_length (n div 2) = (2::nat) * 2 ^ (bit_length (n div 2) - 1)"
      using bp by (cases "bit_length (n div 2)") simp_all
    with IH have "2 ^ bit_length (n div 2) \<le> 2 * (n div 2)" by simp
    then have lo: "2 ^ bit_length (n div 2) \<le> n" by linarith
    from IH have "n div 2 + 1 \<le> 2 ^ bit_length (n div 2)" by simp
    then have "2 * (n div 2) + 2 \<le> 2 * 2 ^ bit_length (n div 2)" by simp
    then have hi: "n < 2 * 2 ^ bit_length (n div 2)" by linarith
    show ?thesis using lo hi by (simp add: b)
  qed
qed

lemma pow2_powi: "pow2 k = 2 powi k"
  by (simp add: pow2_def power_int_def inverse_eq_divide power_one_over)

lemma pow2_pos [simp]: "0 < pow2 k"
  by (simp add: pow2_powi)

lemma pow2_add: "pow2 (a + b) = pow2 a * pow2 b"
  by (simp add: pow2_powi power_int_add)

lemma pow2_mono: "a \<le> b \<Longrightarrow> pow2 a \<le> pow2 b"
  by (simp add: pow2_powi power_int_increasing)

lemma pow2_less_cancel: "pow2 a < pow2 b \<Longrightarrow> a < b"
  using pow2_mono [of b a] by (cases "a < b") auto

lemma pow2_nat: "pow2 (int n) = 2 ^ n"
  by (simp add: pow2_def)

lemma pow2_neg_nat: "pow2 (- int n) = 1 / 2 ^ n"
  by (simp add: pow2_powi power_int_minus inverse_eq_divide)

lemma exponent_bounds:
  assumes "0 < x"
  shows "pow2 (exponent x) \<le> x \<and> x < pow2 (exponent x + 1)"
proof (cases "1 \<le> x")
  case True
  define m where "m = nat \<lfloor>x\<rfloor>"
  have mpos: "0 < m" using True by (simp add: m_def)
  have "0 \<le> \<lfloor>x\<rfloor>" using True by simp
  then have "(of_nat m :: rat) = of_int \<lfloor>x\<rfloor>" by (simp add: m_def)
  then have fl: "of_nat m \<le> x" "x < of_nat m + 1"
    by linarith+
  note b = bit_length_bounds [OF mpos]
  have bp: "0 < bit_length m" using mpos by (subst bit_length.simps) simp
  have e: "exponent x = int (bit_length m - 1)"
    using True bp by (simp add: exponent_def m_def)
  have "(2::rat) ^ (bit_length m - 1) \<le> of_nat m"
    using b by (metis of_nat_le_iff of_nat_numeral of_nat_power)
  with fl(1) have lo: "pow2 (exponent x) \<le> x" unfolding e pow2_nat by linarith
  have "m + 1 \<le> 2 ^ bit_length m" using b by simp
  then have "(of_nat (m + 1) :: rat) \<le> 2 ^ bit_length m"
    by (metis of_nat_le_iff of_nat_numeral of_nat_power)
  with fl have "x < 2 ^ bit_length m" by simp
  moreover have "exponent x + 1 = int (bit_length m)" using e bp by simp
  ultimately have hi: "x < pow2 (exponent x + 1)" by (simp add: pow2_nat)
  show ?thesis using lo hi by simp
next
  case False
  then have x1: "x < 1" by simp
  define k where "k = \<lceil>1 / x\<rceil>"
  define m where "m = nat (k - 1)"
  have inv: "1 < 1 / x" using assms x1 by simp
  then have k2: "2 \<le> k" unfolding k_def by (simp add: le_ceiling_iff) 
  have mpos: "0 < m" using k2 by (simp add: m_def)
  have mk: "int m = k - 1" using k2 by (simp add: m_def)
  have c1: "of_int (k - 1) < 1 / x" unfolding k_def by (metis ceiling_correct le_less_trans less_irrefl linorder_not_less of_int_diff of_int_1 diff_less_eq) 
  have c2: "1 / x \<le> of_int k" unfolding k_def by (rule le_of_int_ceiling)
  note b = bit_length_bounds [OF mpos]
  have e: "exponent x = - int (bit_length m)"
    using False by (simp add: exponent_def m_def k_def)
  have bp: "0 < bit_length m" using mpos by (subst bit_length.simps) simp
  have "m + 1 \<le> 2 ^ bit_length m" using b by simp
  then have "(of_nat (m + 1) :: rat) \<le> 2 ^ bit_length m"
    by (metis of_nat_le_iff of_nat_numeral of_nat_power)
  moreover have "(of_nat (m + 1) :: rat) = of_int k" using mk by (simp add: of_nat_Suc [symmetric] del: of_nat_Suc)
  ultimately have "1 / x \<le> 2 ^ bit_length m" using c2 by linarith
  then have "1 \<le> 2 ^ bit_length m * x" using assms by (simp add: pos_divide_le_eq)
  then have lo: "1 / 2 ^ bit_length m \<le> x" by (simp add: pos_divide_le_eq mult.commute)
  have "(2::rat) ^ (bit_length m - 1) \<le> of_nat m"
    using b by (metis of_nat_le_iff of_nat_numeral of_nat_power)
  moreover have "(of_nat m :: rat) = of_int (k - 1)" using mk by (metis of_int_of_nat_eq)
  ultimately have "2 ^ (bit_length m - 1) < 1 / x" using c1 by linarith
  then have "2 ^ (bit_length m - 1) * x < 1" using assms by (simp add: pos_less_divide_eq)
  then have hi: "x < 1 / 2 ^ (bit_length m - 1)" by (simp add: pos_less_divide_eq mult.commute)
  have "exponent x + 1 = - int (bit_length m - 1)" using e bp by simp
  then have "pow2 (exponent x + 1) = 1 / 2 ^ (bit_length m - 1)" by (simp add: pow2_neg_nat)
  moreover have "pow2 (exponent x) = 1 / 2 ^ bit_length m" by (simp add: e pow2_neg_nat)
  ultimately show ?thesis using lo hi by simp
qed

lemma round_half_even_error: "\<bar>of_int (round_half_even y) - y\<bar> \<le> 1 / 2"
proof -
  define r where "r = y - of_int \<lfloor>y\<rfloor>"
  have r: "0 \<le> r" "r < 1" unfolding r_def by linarith+
  have y: "y = of_int \<lfloor>y\<rfloor> + r" by (simp add: r_def)
  consider "r < 1 / 2" | "1 / 2 < r" | "r = 1 / 2" by linarith
  then show ?thesis
  proof cases
    case 1
    then have "round_half_even y = \<lfloor>y\<rfloor>"
      by (simp add: round_half_even_def Let_def r_def)
    with 1 r y show ?thesis by simp
  next
    case 2
    then have "round_half_even y = \<lfloor>y\<rfloor> + 1"
      by (simp add: round_half_even_def Let_def r_def)
    with 2 r y show ?thesis by simp
  next
    case 3
    then have "round_half_even y = \<lfloor>y\<rfloor> \<or> round_half_even y = \<lfloor>y\<rfloor> + 1"
      by (simp add: round_half_even_def Let_def r_def)
    with 3 r y show ?thesis by auto
  qed
qed

lemma round_half_even_of_int [simp]: "round_half_even (of_int k) = k"
  by (simp add: round_half_even_def)

lemma round_float64_error:
  assumes lo: "pow2 (- 1022) \<le> x" and hi: "x \<le> pow2 1023"
  shows "\<exists>r. round_float64 x = Num r \<and> \<bar>r - x\<bar> \<le> x / 2 ^ 53"
proof -
  have xpos: "0 < x" using lo pow2_pos [of "- 1022"] by linarith
  define e where "e = exponent x"
  have eb: "pow2 e \<le> x" "x < pow2 (e + 1)"
    using exponent_bounds [OF xpos] by (simp_all add: e_def)
  have "pow2 (- 1022) < pow2 (e + 1)" using lo eb(2) by simp
  then have "- 1022 < e + 1" by (rule pow2_less_cancel)
  then have emax: "max e (- 1022) = e" by simp
  define ulp where "ulp = pow2 (e - 52)"
  have ulp_pos: "0 < ulp" by (simp add: ulp_def)
  define y where "y = of_int (round_half_even (x / ulp)) * ulp"
  have "\<bar>of_int (round_half_even (x / ulp)) - x / ulp\<bar> \<le> 1 / 2"
    by (rule round_half_even_error)
  then have "\<bar>of_int (round_half_even (x / ulp)) - x / ulp\<bar> * ulp \<le> 1 / 2 * ulp"
    using ulp_pos by (intro mult_right_mono) simp_all
  moreover have "\<bar>of_int (round_half_even (x / ulp)) - x / ulp\<bar> * ulp = \<bar>y - x\<bar>"
  proof -
    have "\<bar>of_int (round_half_even (x / ulp)) - x / ulp\<bar> * ulp =
        \<bar>(of_int (round_half_even (x / ulp)) - x / ulp) * ulp\<bar>"
      using ulp_pos by (simp add: abs_mult)
    also have "(of_int (round_half_even (x / ulp)) - x / ulp) * ulp = y - x"
      using ulp_pos by (simp add: y_def left_diff_distrib)
    finally show ?thesis .
  qed
  ultimately have err: "\<bar>y - x\<bar> \<le> ulp / 2" by simp
  have "pow2 e = pow2 (e - 52) * pow2 52" using pow2_add [of "e - 52" 52] by simp
  then have ulp_e: "ulp = pow2 e / 2 ^ 52" by (simp add: ulp_def pow2_def)
  then have "ulp / 2 = pow2 e / 2 ^ 53" by simp
  also have "\<dots> \<le> x / 2 ^ 53" using eb(1) by (simp add: divide_right_mono)
  finally have half: "ulp / 2 \<le> x / 2 ^ 53" .
  with err have bound: "\<bar>y - x\<bar> \<le> x / 2 ^ 53" by simp
  have "y \<le> x + x / 2 ^ 53" using bound by linarith
  also have "\<dots> < 2 * x" using xpos by simp
  also have "\<dots> \<le> 2 * pow2 1023" using hi by simp
  also have "\<dots> = pow2 1024" using pow2_add [of 1 1023] by (simp add: pow2_def)
  finally have fin: "\<not> pow2 1024 \<le> y" by simp
  have "round_float64 x = Num y"
    using xpos fin
    by (simp add: round_float64_def Let_def emax e_def [symmetric] ulp_def [symmetric]
        y_def [symmetric])
  with bound show ?thesis by simp
qed

lemma round_float64_of_int:
  assumes "0 \<le> n" "n < 2 ^ 53"
  shows "round_float64 (of_int n) = Num (of_int n)"
proof (cases "n = 0")
  case True
  then show ?thesis by (simp add: round_float64_def)
next
  case False
  define x :: rat where "x = of_int n"
  have x1: "1 \<le> x" using assms False by (simp add: x_def)
  then have xpos: "0 < x" by simp
  define e where "e = exponent x"
  have eb: "pow2 e \<le> x" "x < pow2 (e + 1)"
    using exponent_bounds [OF xpos] by (simp_all add: e_def)
  have "pow2 0 < pow2 (e + 1)" using x1 eb(2) by (simp add: pow2_def)
  then have e0: "0 \<le> e" using pow2_less_cancel [of 0 "e + 1"] by simp
  have "x < 2 ^ 53" using assms by (simp add: x_def)
  then have "pow2 e < pow2 53" using eb(1) by (simp add: pow2_def)
  then have e52: "e \<le> 52" using pow2_less_cancel [of e 53] by simp
  have emax: "max e (- 1022) = e" using e0 by simp
  define j where "j = nat (52 - e)"
  have ulp: "pow2 (e - 52) = 1 / 2 ^ j"
    using e52 pow2_neg_nat [of j] by (simp add: j_def)
  have q: "x / pow2 (e - 52) = of_int (n * 2 ^ j)" by (simp add: ulp x_def)
  have y: "of_int (round_half_even (x / pow2 (e - 52))) * pow2 (e - 52) = x"
    unfolding q round_half_even_of_int by (simp add: ulp x_def)
  have "x < pow2 1024" using \<open>x < 2 ^ 53\<close> by (simp add: pow2_def)
  then have "round_float64 x = Num x"
    using xpos
    by (simp add: round_float64_def Let_def emax e_def [symmetric] y)
  then show ?thesis by (simp add: x_def)
qed

lemma percentage_error:
  assumes t: "0 < t" "t < 2 ^ 53" and u: "0 \<le> u" "u \<le> t"
  shows "\<exists>p. f64_mul (f64_div (f64_of_int u) (f64_of_int t)) (Num 100) = Num p \<and>
             \<bar>p - of_int u / of_int t * 100\<bar> \<le> of_int u / of_int t * 100 / 2 ^ 51"
proof (cases "u = 0")
  case True
  have "f64_of_int t = Num (of_int t)"
    using t by (simp add: f64_of_int_def round_float64_of_int)
  moreover have "f64_of_int 0 = Num 0" by (simp add: f64_of_int_def round_float64_def)
  ultimately have "f64_mul (f64_div (f64_of_int u) (f64_of_int t)) (Num 100) = Num 0"
    using True t by (simp add: round_float64_def)
  with True show ?thesis by simp
next
  case False
  then have upos: "0 < u" using u by simp
  have ct: "f64_of_int t = Num (of_int t)"
    using t by (simp add: f64_of_int_def round_float64_of_int)
  have cu: "f64_of_int u = Num (of_int u)"
    using t u by (simp add: f64_of_int_def round_float64_of_int)
  define q :: rat where "q = of_int u / of_int t"
  have tr: "(0::rat) < of_int t" "(of_int t :: rat) < 2 ^ 53"
    using t by simp_all
  have ur: "(1::rat) \<le> of_int u" "(of_int u :: rat) \<le> of_int t" using upos u by simp_all
  have q1: "q \<le> 1" using tr ur by (simp add: q_def)
  have "1 / of_int t \<le> q" using tr ur by (simp add: q_def divide_right_mono)
  moreover have "1 / 2 ^ 53 < 1 / (of_int t :: rat)" using tr by (simp add: frac_less2)
  ultimately have qlo: "1 / 2 ^ 53 < q" by simp
  have qpos: "0 < q" using qlo by (smt (verit) divide_pos_pos zero_less_numeral zero_less_one zero_less_power less_trans)
  have "pow2 (- 1022) \<le> 1 / 2 ^ 53" by (simp add: pow2_def)
  then have lo1: "pow2 (- 1022) \<le> q" using qlo by simp
  have hi1: "q \<le> pow2 1023" using q1 by (simp add: pow2_def)
  from round_float64_error [OF lo1 hi1] obtain r where
    r: "round_float64 q = Num r" "\<bar>r - q\<bar> \<le> q / 2 ^ 53"
    by blast
  have rlo: "q / 2 \<le> r"
  proof -
    have "q / 2 ^ 53 \<le> q / 2" using qpos by (simp add: frac_le)
    with r(2) show ?thesis by linarith
  qed
  have rhi: "r \<le> q + q / 2 ^ 53" using r(2) by linarith
  have "pow2 (- 1022) \<le> 1 / 2 ^ 54 * 100" by (simp add: pow2_def)
  also have "\<dots> \<le> r * 100" using rlo qlo by simp
  finally have lo2: "pow2 (- 1022) \<le> r * 100" .
  have "r * 100 \<le> 200" using rhi q1 qpos by simp
  also have "\<dots> \<le> pow2 1023" by (simp add: pow2_def)
  finally have hi2: "r * 100 \<le> pow2 1023" .
  from round_float64_error [OF lo2 hi2] obtain p where
    p: "round_float64 (r * 100) = Num p" "\<bar>p - r * 100\<bar> \<le> r * 100 / 2 ^ 53"
    by blast
  have val: "f64_mul (f64_div (f64_of_int u) (f64_of_int t)) (Num 100) = Num p"
    using tr r(1) p(1) by (simp add: ct cu q_def [symmetric])
  have "\<bar>(p - r * 100) + (r - q) * 100\<bar> \<le> \<bar>p - r * 100\<bar> + \<bar>(r - q) * 100\<bar>"
    by (rule abs_triangle_ineq)
  moreover have "(p - r * 100) + (r - q) * 100 = p - q * 100" by (simp add: algebra_simps)
  moreover have "\<bar>(r - q) * 100\<bar> = \<bar>r - q\<bar> * 100" by (subst abs_mult) simp
  ultimately have "\<bar>p - q * 100\<bar> \<le> \<bar>p - r * 100\<bar> + \<bar>r - q\<bar> * 100" by simp
  also have "\<dots> \<le> r * 100 / 2 ^ 53 + q / 2 ^ 53 * 100"
    using p(2) r(2) by (intro add_mono mult_right_mono) simp_all
  also have "\<dots> \<le> (q + q / 2 ^ 53) * 100 / 2 ^ 53 + q / 2 ^ 53 * 100"
    using rhi by (simp add: divide_right_mono)
  also have "\<dots> \<le> q * 100 / 2 ^ 51" using qpos by (simp add: field_simps)
  finally have "\<bar>p - q * 100\<bar> \<le> q * 100 / 2 ^ 51" .
  with val show ?thesis by (auto simp: q_def)
qed

lemma floor_rat_numeral [simp]: "\<lfloor>numeral a / numeral b :: rat\<rfloor> = numeral a div numeral b"
  by (metis floor_divide_of_int_eq of_int_numeral)

lemma ceiling_rat_numeral [simp]:
  "\<lceil>numeral a / numeral b :: rat\<rceil> = - (- numeral a div numeral b)"
  unfolding ceiling_def
  by (metis floor_divide_of_int_eq of_int_numeral of_int_minus minus_divide_left)

lemmas f64_defs =
  f64_of_int_def round_float64_def exponent_def pow2_def round_half_even_def
  bit_length.simps Let_def

lemma unused_le_total:
  "int (length (filter P xs)) \<le> int (length xs)"
  by simp

text \<open>
  Claim C7, at an input where it fails. Of twenty globals nine have a usage count of at
  most 1, so that (total - unused) / total * 100 is 55. The quotient 11 / 20 is no
  \<^verbatim>\<open>float64\<close>: the division rounds it, the product rounds again, and the percentage
  returned is the \<^verbatim>\<open>float64\<close> next above 55.
\<close>

theorem percentage_rounding_counterexample:
  "TotalGlobal (CalculateStatistics 0 table_11_of_20) = 20 \<and>
   UnusedGlobal (CalculateStatistics 0 table_11_of_20) = 9 \<and>
   GlobalUsagePercentage (CalculateStatistics 0 table_11_of_20) = Num (55 + 1 / 2 ^ 47) \<and>
   GlobalUsagePercentage (CalculateStatistics 0 table_11_of_20) \<noteq>
     Num (of_int (20 - 9) / of_int 20 * 100)"
proof -
  have tot: "int (length (globalFunctions table_11_of_20)) = 20"
    by (simp add: table_11_of_20_def)
  have un: "int (length (filter (\<lambda>(name, decl). UsageCount decl \<le> 1)
                           (globalFunctions table_11_of_20))) = 9"
    by (simp add: table_11_of_20_def new_global_def upt_rec_numeral)
  have val: "f64_mul (f64_div (f64_of_int 11) (f64_of_int 20)) (Num 100) = Num (55 + 1 / 2 ^ 47)"
    by (simp add: f64_defs)
  have pct: "GlobalUsagePercentage (CalculateStatistics 0 table_11_of_20) = Num (55 + 1 / 2 ^ 47)"
    by (simp add: CalculateStatistics_def Let_def tot un val)
  have "TotalGlobal (CalculateStatistics 0 table_11_of_20) = 20"
    by (simp add: CalculateStatistics_def Let_def tot)
  moreover have "UnusedGlobal (CalculateStatistics 0 table_11_of_20) = 9"
    by (simp add: CalculateStatistics_def Let_def un)
  ultimately show ?thesis using pct by simp
qed

text \<open>
  Claim C7, amended. Given the final symbol table and an elapsed duration, the statistics
  hold the number of global declarations, the number of globals whose usage count is at
  most 1 (the length of the list of unused globals), the same two numbers for the static
  declarations, the duration, and for each category a percentage that is 0 when the total
  of the category is 0 (no division takes place) and otherwise the \<^verbatim>\<open>float64\<close> that
  \<^verbatim>\<open>float64(total - unused) / float64(total) * 100.0\<close> gives, the quotient and the product
  each rounded to the nearest \<^verbatim>\<open>float64\<close>. For a total below \<open>2^53\<close> this percentage is a
  number within one part in \<open>2^51\<close> of (total - unused) / total * 100.
\<close>

theorem CalculateStatistics_contract:
  "TotalGlobal (CalculateStatistics t st) = int (length (globalFunctions st)) \<and>
   UnusedGlobal (CalculateStatistics t st) =
     int (length (filter (\<lambda>(name, decl). UsageCount decl \<le> 1) (globalFunctions st))) \<and>
   UnusedGlobal (CalculateStatistics t st) = int (length (fst (GetUnusedDeclarations st))) \<and>
   TotalStatic (CalculateStatistics t st) =
     (\<Sum>(file, funcs)\<leftarrow>staticFunctions st. int (length funcs)) \<and>
   UnusedStatic (CalculateStatistics t st) =
     (\<Sum>(file, funcs)\<leftarrow>staticFunctions st.
        int (length (filter (\<lambda>(name, decl). UsageCount decl \<le> 1) funcs))) \<and>
   UnusedStatic (CalculateStatistics t st) = int (length (snd (GetUnusedDeclarations st))) \<and>
   TotalProcessingTime (CalculateStatistics t st) = t \<and>
   GlobalUsagePercentage (CalculateStatistics t st) =
     (if TotalGlobal (CalculateStatistics t st) = 0 then Num 0
      else f64_mul
             (f64_div
                (f64_of_int (TotalGlobal (CalculateStatistics t st) -
                             UnusedGlobal (CalculateStatistics t st)))
                (f64_of_int (TotalGlobal (CalculateStatistics t st))))
             (Num 100)) \<and>
   StaticUsagePercentage (CalculateStatistics t st) =
     (if TotalStatic (CalculateStatistics t st) = 0 then Num 0
      else f64_mul
             (f64_div
                (f64_of_int (TotalStatic (CalculateStatistics t st) -
                             UnusedStatic (CalculateStatistics t st)))
                (f64_of_int (TotalStatic (CalculateStatistics t st))))
             (Num 100)) \<and>
   (0 < TotalGlobal (CalculateStatistics t st) \<and>
    TotalGlobal (CalculateStatistics t st) < 2 ^ 53 \<longrightarrow>
      (\<exists>p. GlobalUsagePercentage (CalculateStatistics t st) = Num p \<and>
           \<bar>p - of_int (TotalGlobal (CalculateStatistics t st) -
                          UnusedGlobal (CalculateStatistics t st)) /
                  of_int (TotalGlobal (CalculateStatistics t st)) * 100\<bar> \<le>
           of_int (TotalGlobal (CalculateStatistics t st) -
                   UnusedGlobal (CalculateStatistics t st)) /
           of_int (TotalGlobal (CalculateStatistics t st)) * 100 / 2 ^ 51)) \<and>
   (0 < TotalStatic (CalculateStatistics t st) \<and>
    TotalStatic (CalculateStatistics t st) < 2 ^ 53 \<longrightarrow>
      (\<exists>p. StaticUsagePercentage (CalculateStatistics t st) = Num p \<and>
           \<bar>p - of_int (TotalStatic (CalculateStatistics t st) -
                          UnusedStatic (CalculateStatistics t st)) /
                  of_int (TotalStatic (CalculateStatistics t st)) * 100\<bar> \<le>
           of_int (TotalStatic (CalculateStatistics t st) -
                   UnusedStatic (CalculateStatistics t st)) /
           of_int (TotalStatic (CalculateStatistics t st)) * 100 / 2 ^ 51))"
proof -
  let ?S = "CalculateStatistics t st"
  have ts: "int (length (concat (map snd (staticFunctions st)))) =
      (\<Sum>(file, funcs)\<leftarrow>staticFunctions st. int (length funcs))"
    by (simp add: int_length_concat comp_def case_prod_unfold)
  have us: "int (length (filter (\<lambda>(name, decl). UsageCount decl \<le> 1)
                  (concat (map snd (staticFunctions st))))) =
      (\<Sum>(file, funcs)\<leftarrow>staticFunctions st.
        int (length (filter (\<lambda>(name, decl). UsageCount decl \<le> 1) funcs)))"
    by (simp add: filter_concat int_length_concat comp_def case_prod_unfold)
  have us': "int (length (snd (GetUnusedDeclarations st))) =
      (\<Sum>(file, funcs)\<leftarrow>staticFunctions st.
        int (length (filter (\<lambda>(name, decl). UsageCount decl \<le> 1) funcs)))"
    by (simp add: GetUnusedDeclarations_def int_length_concat comp_def case_prod_unfold)
  have nn: "0 \<le> (\<Sum>(file, funcs)\<leftarrow>staticFunctions st. int (length funcs))"
    unfolding ts [symmetric] by simp
  have c1: "TotalGlobal ?S = int (length (globalFunctions st))"
    by (simp add: CalculateStatistics_def Let_def)
  have c2: "UnusedGlobal ?S =
      int (length (filter (\<lambda>(name, decl). UsageCount decl \<le> 1) (globalFunctions st)))"
    by (simp add: CalculateStatistics_def Let_def)
  have c3: "UnusedGlobal ?S = int (length (fst (GetUnusedDeclarations st)))"
    by (simp add: CalculateStatistics_def Let_def GetUnusedDeclarations_def)
  have c4: "TotalStatic ?S = (\<Sum>(file, funcs)\<leftarrow>staticFunctions st. int (length funcs))"
    by (simp add: CalculateStatistics_def Let_def ts)
  have c5: "UnusedStatic ?S =
      (\<Sum>(file, funcs)\<leftarrow>staticFunctions st.
        int (length (filter (\<lambda>(name, decl). UsageCount decl \<le> 1) funcs)))"
    by (simp add: CalculateStatistics_def Let_def us)
  have c6: "UnusedStatic ?S = int (length (snd (GetUnusedDeclarations st)))"
    unfolding us' by (rule c5)
  have c7: "TotalProcessingTime ?S = t"
    by (simp add: CalculateStatistics_def Let_def)
  have c8: "GlobalUsagePercentage ?S =
     (if TotalGlobal ?S = 0 then Num 0
      else f64_mul (f64_div (f64_of_int (TotalGlobal ?S - UnusedGlobal ?S))
                      (f64_of_int (TotalGlobal ?S))) (Num 100))"
    by (simp add: CalculateStatistics_def Let_def)
  have c9: "StaticUsagePercentage ?S =
     (if TotalStatic ?S = 0 then Num 0
      else f64_mul (f64_div (f64_of_int (TotalStatic ?S - UnusedStatic ?S))
                      (f64_of_int (TotalStatic ?S))) (Num 100))"
  proof -
    have "0 \<le> int (length (concat (map snd (staticFunctions st))))" by simp
    then show ?thesis by (simp add: CalculateStatistics_def Let_def order_less_le)
  qed
  have ug: "0 \<le> TotalGlobal ?S - UnusedGlobal ?S \<and> TotalGlobal ?S - UnusedGlobal ?S \<le> TotalGlobal ?S"
    unfolding c1 c2 by simp
  have usl: "0 \<le> TotalStatic ?S - UnusedStatic ?S \<and> TotalStatic ?S - UnusedStatic ?S \<le> TotalStatic ?S"
    by (simp add: CalculateStatistics_def Let_def)
  have c10: "0 < TotalGlobal ?S \<and> TotalGlobal ?S < 2 ^ 53 \<longrightarrow>
      (\<exists>p. GlobalUsagePercentage ?S = Num p \<and>
           \<bar>p - of_int (TotalGlobal ?S - UnusedGlobal ?S) / of_int (TotalGlobal ?S) * 100\<bar> \<le>
           of_int (TotalGlobal ?S - UnusedGlobal ?S) / of_int (TotalGlobal ?S) * 100 / 2 ^ 51)"
  proof
    assume a: "0 < TotalGlobal ?S \<and> TotalGlobal ?S < 2 ^ 53"
    then have "GlobalUsagePercentage ?S =
        f64_mul (f64_div (f64_of_int (TotalGlobal ?S - UnusedGlobal ?S))
                   (f64_of_int (TotalGlobal ?S))) (Num 100)"
      by (simp add: c8)
    then show "\<exists>p. GlobalUsagePercentage ?S = Num p \<and>
           \<bar>p - of_int (TotalGlobal ?S - UnusedGlobal ?S) / of_int (TotalGlobal ?S) * 100\<bar> \<le>
           of_int (TotalGlobal ?S - UnusedGlobal ?S) / of_int (TotalGlobal ?S) * 100 / 2 ^ 51"
      using percentage_error [of "TotalGlobal ?S" "TotalGlobal ?S - UnusedGlobal ?S"] a ug
      by simp
  qed
  have c11: "0 < TotalStatic ?S \<and> TotalStatic ?S < 2 ^ 53 \<longrightarrow>
      (\<exists>p. StaticUsagePercentage ?S = Num p \<and>
           \<bar>p - of_int (TotalStatic ?S - UnusedStatic ?S) / of_int (TotalStatic ?S) * 100\<bar> \<le>
           of_int (TotalStatic ?S - UnusedStatic ?S) / of_int (TotalStatic ?S) * 100 / 2 ^ 51)"
  proof
    assume a: "0 < TotalStatic ?S \<and> TotalStatic ?S < 2 ^ 53"
    then have "StaticUsagePercentage ?S =
        f64_mul (f64_div (f64_of_int (TotalStatic ?S - UnusedStatic ?S))
                   (f64_of_int (TotalStatic ?S))) (Num 100)"
      by (simp add: c9)
    then show "\<exists>p. StaticUsagePercentage ?S = Num p \<and>
           \<bar>p - of_int (TotalStatic ?S - UnusedStatic ?S) / of_int (TotalStatic ?S) * 100\<bar> \<le>
           of_int (TotalStatic ?S - UnusedStatic ?S) / of_int (TotalStatic ?S) * 100 / 2 ^ 51"
      using percentage_error [of "TotalStatic ?S" "TotalStatic ?S - UnusedStatic ?S"] a usl
      by simp
  qed
  show ?thesis
    by (rule conjI [OF c1 conjI [OF c2 conjI [OF c3 conjI [OF c4 conjI [OF c5 conjI [OF c6
        conjI [OF c7 conjI [OF c8 conjI [OF c9 conjI [OF c10 c11]]]]]]]]]])
qed

theorem CalculateStatistics_contract_witness:
  "TotalGlobal (CalculateStatistics 0 table_1_of_2) = 2 \<and>
   UnusedGlobal (CalculateStatistics 0 table_1_of_2) = 1 \<and>
   GlobalUsagePercentage (CalculateStatistics 0 table_1_of_2) = Num 50 \<and>
   (\<exists>p. GlobalUsagePercentage (CalculateStatistics 0 table_1_of_2) = Num p \<and>
        \<bar>p - 50\<bar> \<le> 50 / 2 ^ 51) \<and>
   TotalStatic (CalculateStatistics 0 table_1_of_2) = 0 \<and>
   StaticUsagePercentage (CalculateStatistics 0 table_1_of_2) = Num 0"
proof -
  let ?S = "CalculateStatistics 0 table_1_of_2"
  note inst = CalculateStatistics_contract [of 0 table_1_of_2]
  have tg: "TotalGlobal ?S = 2"
    using inst [THEN conjunct1] by (simp add: table_1_of_2_def)
  have ug: "UnusedGlobal ?S = 1"
    using inst [THEN conjunct2, THEN conjunct1] by (simp add: table_1_of_2_def new_global_def)
  have ts: "TotalStatic ?S = 0"
    using inst [THEN conjunct2, THEN conjunct2, THEN conjunct2, THEN conjunct1]
    by (simp add: table_1_of_2_def)
  have val: "f64_mul (f64_div (f64_of_int 1) (f64_of_int 2)) (Num 100) = Num 50"
    by (simp add: f64_defs)
  have gp: "GlobalUsagePercentage ?S = Num 50"
    using inst [THEN conjunct2, THEN conjunct2, THEN conjunct2, THEN conjunct2, THEN conjunct2,
        THEN conjunct2, THEN conjunct2, THEN conjunct1] tg ug val
    by simp
  have sp: "StaticUsagePercentage ?S = Num 0"
    using inst [THEN conjunct2, THEN conjunct2, THEN conjunct2, THEN conjunct2, THEN conjunct2,
        THEN conjunct2, THEN conjunct2, THEN conjunct2, THEN conjunct1] ts
    by simp
  have gb: "\<exists>p. GlobalUsagePercentage ?S = Num p \<and> \<bar>p - 50\<bar> \<le> 50 / 2 ^ 51"
    using inst [THEN conjunct2, THEN conjunct2, THEN conjunct2, THEN conjunct2, THEN conjunct2,
        THEN conjunct2, THEN conjunct2, THEN conjunct2, THEN conjunct2, THEN conjunct1] tg ug
    by simp
  show ?thesis using tg ug gp gb ts sp by blast
qed

section \<open>Unused symbols\<close>

lemma sum_list_all_zero: "(\<And>x. x \<in> set xs \<Longrightarrow> h x = (0::int)) \<Longrightarrow> (\<Sum>x\<leftarrow>xs. h x) = 0"
  by (induction xs) auto

lemma filter_hd_mem: "filter P xs = y # ys \<Longrightarrow> y \<in> set xs \<and> P y"
proof -
  assume "filter P xs = y # ys"
  then have "y \<in> set (filter P xs)" by simp
  then show ?thesis by simp
qed

text \<open>
  Claim C1. In the table a scan ends with, a declaration is in the list of unused globals
  (for a static: of unused statics), as the pair of its name and file, exactly when its
  usage count is at most 1. A global that a single line declares, whose lower-cased name
  is a token at most once in its declaring file and nowhere else, ends with the count 1
  and is in the list; so does a static whose name is a token of its file at most once.
\<close>

theorem unused_iff_count_le_1:
  "(global_decl (scan T rf files) n = Some d \<longrightarrow>
      ((Name d, File d) \<in> set (fst (GetUnusedDeclarations (scan T rf files)))) =
      (UsageCount d \<le> 1)) \<and>
   (static_decl (scan T rf files) g m = Some e \<longrightarrow>
      ((Name e, g) \<in> set (snd (GetUnusedDeclarations (scan T rf files)))) =
      (UsageCount e \<le> 1)) \<and>
   (global_decl (scan T rf files) n = Some d \<and>
    (\<Sum>f\<leftarrow>files. global_lines rf f n) = 1 \<and>
    occurrences T rf (File d) n \<le> 1 \<and>
    (\<forall>f\<in>set files. f \<noteq> File d \<longrightarrow> occurrences T rf f n = 0) \<longrightarrow>
      UsageCount d = 1 \<and> (n, File d) \<in> set (fst (GetUnusedDeclarations (scan T rf files)))) \<and>
   (static_decl (scan T rf files) g m = Some e \<and> occurrences T rf g m \<le> 1 \<longrightarrow>
      UsageCount e = 1 \<and> (m, g) \<in> set (snd (GetUnusedDeclarations (scan T rf files))))"
proof -
  let ?st = "scan T rf files"
  have ok: "table_ok ?st" by (rule table_ok_scan)
  have g1: "((Name d, File d) \<in> set (fst (GetUnusedDeclarations ?st))) = (UsageCount d \<le> 1)"
    if d: "global_decl ?st n = Some d"
  proof -
    have "Name d = n" using table_ok_global_Name [OF ok d] .
    then show ?thesis using d by (simp add: unused_global_iff [OF ok])
  qed
  have s1: "((Name e, g) \<in> set (snd (GetUnusedDeclarations ?st))) = (UsageCount e \<le> 1)"
    if e: "static_decl ?st g m = Some e"
  proof -
    have "Name e = m" using table_ok_static_Name [OF ok e] by simp
    then show ?thesis using e by (simp add: unused_static_iff [OF ok])
  qed
  have g2: "UsageCount d = 1 \<and> (n, File d) \<in> set (fst (GetUnusedDeclarations ?st))"
    if d: "global_decl ?st n = Some d" and one: "(\<Sum>f\<leftarrow>files. global_lines rf f n) = 1"
      and own: "occurrences T rf (File d) n \<le> 1"
      and others: "\<forall>f\<in>set files. f \<noteq> File d \<longrightarrow> occurrences T rf f n = 0"
  proof -
    from d obtain f0 fs where
      d_eq: "d = new_global n f0 (wrap_int64 ((\<Sum>f\<leftarrow>files. global_lines rf f n) +
                (\<Sum>f\<leftarrow>files. global_added T rf f n f0)))"
      by (auto simp: global_decl_scan split: list.splits)
    then have f0: "File d = f0" by simp
    have "global_added T rf f n f0 = 0" if "f \<in> set files" for f
      using that own others occurrences_nonneg [of T rf f n]
      by (auto simp: global_added_def Let_def f0)
    then have "(\<Sum>f\<leftarrow>files. global_added T rf f n f0) = 0"
      by (rule sum_list_all_zero)
    with d_eq one have c: "UsageCount d = 1" by simp
    with d show ?thesis by (auto simp: unused_global_iff [OF ok])
  qed
  have s2: "UsageCount e = 1 \<and> (m, g) \<in> set (snd (GetUnusedDeclarations ?st))"
    if e: "static_decl ?st g m = Some e" and own: "occurrences T rf g m \<le> 1"
  proof -
    have "static_added T rf g m = 0"
      using own occurrences_nonneg [of T rf g m] by (auto simp: static_added_def Let_def)
    then have "(\<Sum>f\<leftarrow>files. if f = g then static_added T rf f m else 0) = 0"
      by (intro sum_list_all_zero) auto
    with e have c: "UsageCount e = 1"
      by (auto simp: static_decl_scan split: if_splits)
    with e show ?thesis by (auto simp: unused_static_iff [OF ok])
  qed
  show ?thesis using g1 s1 g2 s2 by blast
qed

theorem unused_iff_count_le_1_witness:
  "global_decl (scan tables_latin1 read_demo [main_prg, utils_prg]) (str ''Func1'') =
     Some (new_global (str ''Func1'') main_prg 1) \<and>
   static_decl (scan tables_latin1 read_demo [main_prg, utils_prg]) utils_prg (str ''Lonely'') =
     Some (new_static (str ''Lonely'') utils_prg 1) \<and>
   (\<Sum>f\<leftarrow>[main_prg, utils_prg]. global_lines read_demo f (str ''Func1'')) = 1 \<and>
   occurrences tables_latin1 read_demo main_prg (str ''Func1'') \<le> 1 \<and>
   occurrences tables_latin1 read_demo utils_prg (str ''Func1'') = 0 \<and>
   occurrences tables_latin1 read_demo utils_prg (str ''Lonely'') \<le> 1 \<and>
   (str ''Func1'', main_prg) \<in>
     set (fst (GetUnusedDeclarations (scan tables_latin1 read_demo [main_prg, utils_prg]))) \<and>
   (str ''Lonely'', utils_prg) \<in>
     set (snd (GetUnusedDeclarations (scan tables_latin1 read_demo [main_prg, utils_prg])))"
proof -
  let ?S = "scan tables_latin1 read_demo [main_prg, utils_prg]"
  have d: "global_decl ?S (str ''Func1'') = Some (new_global (str ''Func1'') main_prg 1)"
    by (simp add: eval_defs)
  have e: "static_decl ?S utils_prg (str ''Lonely'') = Some (new_static (str ''Lonely'') utils_prg 1)"
    by (simp add: eval_defs)
  have one: "(\<Sum>f\<leftarrow>[main_prg, utils_prg]. global_lines read_demo f (str ''Func1'')) = 1"
    by (simp add: eval_defs)
  have own: "occurrences tables_latin1 read_demo main_prg (str ''Func1'') \<le> 1"
    by (simp add: eval_defs)
  have other: "occurrences tables_latin1 read_demo utils_prg (str ''Func1'') = 0"
    by (simp add: eval_defs)
  have lonely: "occurrences tables_latin1 read_demo utils_prg (str ''Lonely'') \<le> 1"
    by (simp add: eval_defs)
  have others: "\<forall>f\<in>set [main_prg, utils_prg].
      f \<noteq> File (new_global (str ''Func1'') main_prg 1) \<longrightarrow>
      occurrences tables_latin1 read_demo f (str ''Func1'') = 0"
    using other by simp
  have own': "occurrences tables_latin1 read_demo (File (new_global (str ''Func1'') main_prg 1))
      (str ''Func1'') \<le> 1"
    using own by simp
  from unused_iff_count_le_1 [of tables_latin1 read_demo "[main_prg, utils_prg]" "str ''Func1''"
      "new_global (str ''Func1'') main_prg 1" utils_prg "str ''Lonely''"
      "new_static (str ''Lonely'') utils_prg 1"] d e one own' others lonely
  have "(str ''Func1'', main_prg) \<in> set (fst (GetUnusedDeclarations ?S)) \<and>
        (str ''Lonely'', utils_prg) \<in> set (snd (GetUnusedDeclarations ?S))"
    by simp
  with d e one own other lonely show ?thesis by simp
qed

section \<open>Static declarations are counted in their own file only\<close>

lemma sum_list_single:
  "distinct xs \<Longrightarrow> g \<in> set xs \<Longrightarrow> (\<Sum>f\<leftarrow>xs. if f = g then h f else (0::int)) = h g"
proof (induction xs)
  case Nil
  then show ?case by simp
next
  case (Cons x xs)
  show ?case
  proof (cases "x = g")
    case True
    with Cons.prems have "g \<notin> set xs" by simp
    then have "(\<Sum>f\<leftarrow>xs. if f = g then h f else 0) = 0"
      by (intro sum_list_all_zero) auto
    with True show ?thesis by simp
  next
    case False
    with Cons show ?thesis by simp
  qed
qed

lemma static_declared_cong: "rf g = rf' g \<Longrightarrow> static_declared rf g n = static_declared rf' g n"
  by (simp add: static_declared_def file_decls_def)

lemma static_added_cong: "rf g = rf' g \<Longrightarrow> static_added T rf g n = static_added T rf' g n"
  by (simp add: static_added_def occurrences_def)

lemma sum_static_cong:
  "rf g = rf' g \<Longrightarrow>
   (\<Sum>f\<leftarrow>files. if f = g then static_added T rf f n else 0) =
   (\<Sum>f\<leftarrow>files. if f = g then static_added T rf' f n else 0)"
proof -
  assume "rf g = rf' g"
  then have eq: "static_added T rf g n = static_added T rf' g n"
    by (rule static_added_cong)
  show ?thesis by (induction files) (simp_all add: eq)
qed

text \<open>
  Claim C6. Counting the usage of a file changes no static declaration kept under another
  file. The declaration a scan ends with for a static of file \<open>g\<close> depends on no file but
  \<open>g\<close>: two scans whose reads agree on \<open>g\<close> agree on it, whatever the other files hold, and
  its count is what an \<^verbatim>\<open>int64\<close> holds of 1 plus what \<open>g\<close> itself adds. Statics of the same
  name in two files are two declarations, each under its own file.
\<close>

theorem static_usage_own_file_only:
  "(g \<noteq> f \<longrightarrow> static_decl (processFileForUsage T rf f st) g n = static_decl st g n) \<and>
   (rf g = rf' g \<longrightarrow> static_decl (scan T rf files) g n = static_decl (scan T rf' files) g n) \<and>
   (distinct files \<and> static_decl (scan T rf files) g n = Some d \<longrightarrow>
      Name d = n \<and> File d = g \<and> UsageCount d = wrap_int64 (1 + static_added T rf g n)) \<and>
   (g \<noteq> f \<and> g \<in> set files \<and> f \<in> set files \<and> static_declared rf g n \<and>
    static_declared rf f n \<longrightarrow>
      (\<exists>d e. static_decl (scan T rf files) g n = Some d \<and> File d = g \<and>
             static_decl (scan T rf files) f n = Some e \<and> File e = f))"
proof -
  have p1: "static_decl (processFileForUsage T rf f st) g n = static_decl st g n" if "g \<noteq> f"
    using that by (simp add: static_decl_usage_file)
  have p2: "static_decl (scan T rf files) g n = static_decl (scan T rf' files) g n"
    if "rf g = rf' g"
  proof -
    have "static_declared rf g n = static_declared rf' g n"
      using that by (rule static_declared_cong)
    moreover have "(\<Sum>f\<leftarrow>files. if f = g then static_added T rf f n else 0) =
        (\<Sum>f\<leftarrow>files. if f = g then static_added T rf' f n else 0)"
      using that by (rule sum_static_cong)
    ultimately show ?thesis by (simp only: static_decl_scan)
  qed
  have p3: "Name d = n \<and> File d = g \<and> UsageCount d = wrap_int64 (1 + static_added T rf g n)"
    if "distinct files" "static_decl (scan T rf files) g n = Some d"
  proof -
    from that(2) have mem: "g \<in> set files" and
      d: "d = new_static n g
               (wrap_int64 (1 + (\<Sum>f\<leftarrow>files. if f = g then static_added T rf f n else 0)))"
      by (auto simp: static_decl_scan split: if_splits)
    have "(\<Sum>f\<leftarrow>files. if f = g then static_added T rf f n else 0) = static_added T rf g n"
      using that(1) mem by (rule sum_list_single)
    with d show ?thesis by simp
  qed
  have p4: "\<exists>d e. static_decl (scan T rf files) g n = Some d \<and> File d = g \<and>
      static_decl (scan T rf files) f n = Some e \<and> File e = f"
    if "g \<in> set files" "f \<in> set files" "static_declared rf g n" "static_declared rf f n"
    using that by (simp add: static_decl_scan)
  from p1 have c1:
    "g \<noteq> f \<longrightarrow> static_decl (processFileForUsage T rf f st) g n = static_decl st g n"
    by (rule impI)
  from p2 have c2:
    "rf g = rf' g \<longrightarrow> static_decl (scan T rf files) g n = static_decl (scan T rf' files) g n"
    by (rule impI)
  from p3 have c3:
    "distinct files \<and> static_decl (scan T rf files) g n = Some d \<longrightarrow>
       Name d = n \<and> File d = g \<and> UsageCount d = wrap_int64 (1 + static_added T rf g n)"
    by blast
  from p4 have c4:
    "g \<noteq> f \<and> g \<in> set files \<and> f \<in> set files \<and> static_declared rf g n \<and>
     static_declared rf f n \<longrightarrow>
       (\<exists>d e. static_decl (scan T rf files) g n = Some d \<and> File d = g \<and>
              static_decl (scan T rf files) f n = Some e \<and> File e = f)"
    by blast
  show ?thesis by (rule conjI [OF c1 conjI [OF c2 conjI [OF c3 c4]]])
qed

theorem static_usage_own_file_only_witness:
  "a_prg \<noteq> b_prg \<and>
   read_dup a_prg = (read_dup(b_prg := None)) a_prg \<and>
   static_declared read_dup a_prg (str ''Init'') \<and>
   static_declared read_dup b_prg (str ''Init'') \<and>
   static_decl (processFileForUsage tables_latin1 read_dup b_prg
      (ProcessDeclarationsConcurrently read_dup [a_prg, b_prg] init)) a_prg (str ''Init'') =
     Some (new_static (str ''Init'') a_prg 1) \<and>
   static_decl (scan tables_latin1 read_dup [a_prg, b_prg]) a_prg (str ''Init'') =
     Some (new_static (str ''Init'') a_prg 2) \<and>
   static_decl (scan tables_latin1 (read_dup(b_prg := None)) [a_prg, b_prg]) a_prg (str ''Init'') =
     Some (new_static (str ''Init'') a_prg 2) \<and>
   static_decl (scan tables_latin1 read_dup [a_prg, b_prg]) b_prg (str ''Init'') =
     Some (new_static (str ''Init'') b_prg 3)"
proof -
  let ?D = "ProcessDeclarationsConcurrently read_dup [a_prg, b_prg] init"
  let ?S = "scan tables_latin1 read_dup [a_prg, b_prg]"
  have ne: "a_prg \<noteq> b_prg" by (simp add: eval_defs)
  have agree: "read_dup a_prg = (read_dup(b_prg := None)) a_prg" using ne by simp
  have da: "static_declared read_dup a_prg (str ''Init'')" by (simp add: eval_defs)
  have db: "static_declared read_dup b_prg (str ''Init'')" by (simp add: eval_defs)
  have dist: "distinct [a_prg, b_prg]" using ne by simp
  have a0: "static_decl ?D a_prg (str ''Init'') = Some (new_static (str ''Init'') a_prg 1)"
    by (simp add: eval_defs)
  have a: "static_decl ?S a_prg (str ''Init'') = Some (new_static (str ''Init'') a_prg 2)"
    by (simp add: eval_defs)
  have b: "static_decl ?S b_prg (str ''Init'') = Some (new_static (str ''Init'') b_prg 3)"
    by (simp add: eval_defs)
  note inst = static_usage_own_file_only [where g = a_prg and f = b_prg and T = tables_latin1
      and rf = read_dup and rf' = "read_dup(b_prg := None)" and st = ?D and n = "str ''Init''"
      and files = "[a_prg, b_prg]" and d = "new_static (str ''Init'') a_prg 2"]
  from inst [THEN conjunct1] ne have
    "static_decl (processFileForUsage tables_latin1 read_dup b_prg ?D) a_prg (str ''Init'') =
       static_decl ?D a_prg (str ''Init'')"
    by blast
  with a0 have c1:
    "static_decl (processFileForUsage tables_latin1 read_dup b_prg ?D) a_prg (str ''Init'') =
       Some (new_static (str ''Init'') a_prg 1)"
    by (simp only:)
  from inst [THEN conjunct2, THEN conjunct1] agree have
    "static_decl ?S a_prg (str ''Init'') =
       static_decl (scan tables_latin1 (read_dup(b_prg := None)) [a_prg, b_prg]) a_prg (str ''Init'')"
    by blast
  with a have c2:
    "static_decl (scan tables_latin1 (read_dup(b_prg := None)) [a_prg, b_prg]) a_prg (str ''Init'') =
       Some (new_static (str ''Init'') a_prg 2)"
    by (simp only:)
  show ?thesis using ne agree da db c1 a c2 b by blast
qed

section \<open>The discount of the declaration\<close>

text \<open>
  Claim C2, at an input where it fails. Each file declares the static procedure \<^verbatim>\<open>Helper\<close>
  once, on a line where a letter that is not ASCII follows the name at once, so that the
  declaring line holds no token \<^verbatim>\<open>helper\<close>; the rule of the specification finds the same
  declaration on that line. \<^verbatim>\<open>a.prg\<close> then refers to \<^verbatim>\<open>Helper\<close> twice: the discount is taken
  from the two references and \<^verbatim>\<open>Helper\<close> ends with the count 2, not 3. \<^verbatim>\<open>b.prg\<close> refers to it
  once: \<^verbatim>\<open>Helper\<close> ends with the count 1 and is in the list of unused statics.
\<close>

theorem static_referenced_twice_counts_2:
  "file_decls read_helper a_prg = [(True, str ''Helper'')] \<and>
   spec_line_decl (str ''static procedure Helper'' @ [233]) = Some (True, str ''Helper'') \<and>
   occurrences tables_latin1 read_helper a_prg (str ''Helper'') = 2 \<and>
   static_decl (scan tables_latin1 read_helper [a_prg]) a_prg (str ''Helper'') =
     Some (new_static (str ''Helper'') a_prg 2) \<and>
   file_decls read_helper b_prg = [(True, str ''Helper'')] \<and>
   occurrences tables_latin1 read_helper b_prg (str ''Helper'') = 1 \<and>
   static_decl (scan tables_latin1 read_helper [b_prg]) b_prg (str ''Helper'') =
     Some (new_static (str ''Helper'') b_prg 1) \<and>
   snd (GetUnusedDeclarations (scan tables_latin1 read_helper [b_prg])) =
     [(str ''Helper'', b_prg)]"
  by (simp add: eval_defs spec_defs tables_latin1_def)

text \<open>
  What the usage phase does for a declaration whose lower-cased name is a token of its own
  file: it adds the number of these tokens less one to the counter, an \<^verbatim>\<open>int64\<close>, be the
  declaration a global declared in that file or a static of that file. So a static of a
  file in which its name is a token three times ends with the count 3.
\<close>

theorem usage_discounts_one_token:
  "(global_decl st n = Some d \<and> File d = f \<and> 0 < occurrences T rf f (Name d) \<and>
    - (2 ^ 63) \<le> UsageCount d \<and> UsageCount d + (occurrences T rf f (Name d) - 1) < 2 ^ 63 \<longrightarrow>
      global_decl (processFileForUsage T rf f st) n =
        Some (d\<lparr>UsageCount := UsageCount d + (occurrences T rf f (Name d) - 1)\<rparr>)) \<and>
   (static_decl st f n = Some e \<and> 0 < occurrences T rf f (Name e) \<and>
    - (2 ^ 63) \<le> UsageCount e \<and> UsageCount e + (occurrences T rf f (Name e) - 1) < 2 ^ 63 \<longrightarrow>
      static_decl (processFileForUsage T rf f st) f n =
        Some (e\<lparr>UsageCount := UsageCount e + (occurrences T rf f (Name e) - 1)\<rparr>)) \<and>
   (distinct files \<and> static_decl (scan T rf files) f n = Some e \<and>
    occurrences T rf f n = 3 \<longrightarrow> UsageCount e = 3)"
proof -
  have g1: "global_decl (processFileForUsage T rf f st) n =
      Some (d\<lparr>UsageCount := UsageCount d + (occurrences T rf f (Name d) - 1)\<rparr>)"
    if "global_decl st n = Some d" "File d = f" "0 < occurrences T rf f (Name d)"
      "- (2 ^ 63) \<le> UsageCount d" "UsageCount d + (occurrences T rf f (Name d) - 1) < 2 ^ 63"
    using that by (auto simp: global_decl_usage_file global_added_def bump_def wrap_int64_id)
  have s1: "static_decl (processFileForUsage T rf f st) f n =
      Some (e\<lparr>UsageCount := UsageCount e + (occurrences T rf f (Name e) - 1)\<rparr>)"
    if "static_decl st f n = Some e" "0 < occurrences T rf f (Name e)"
      "- (2 ^ 63) \<le> UsageCount e" "UsageCount e + (occurrences T rf f (Name e) - 1) < 2 ^ 63"
    using that by (auto simp: static_decl_usage_file static_added_def bump_def wrap_int64_id)
  have s3: "UsageCount e = 3"
    if "distinct files" "static_decl (scan T rf files) f n = Some e" "occurrences T rf f n = 3"
  proof -
    from that(2) have mem: "f \<in> set files" and
      e: "e = new_static n f
            (wrap_int64 (1 + (\<Sum>f'\<leftarrow>files. if f' = f then static_added T rf f' n else 0)))"
      by (auto simp: static_decl_scan split: if_splits)
    have "(\<Sum>f'\<leftarrow>files. if f' = f then static_added T rf f' n else 0) = static_added T rf f n"
      using that(1) mem by (rule sum_list_single)
    with e that(3) show ?thesis by (simp add: static_added_def wrap_int64_def)
  qed
  show ?thesis using g1 s1 s3 by blast
qed

theorem usage_discounts_one_token_witness:
  "static_decl (scan tables_latin1 read_demo [main_prg, utils_prg]) utils_prg (str ''Helper'') =
     Some (new_static (str ''Helper'') utils_prg 3) \<and>
   occurrences tables_latin1 read_demo utils_prg (str ''Helper'') = 3 \<and>
   global_decl (ProcessDeclarationsConcurrently read_demo [main_prg, utils_prg] init)
     (str ''Func2'') = Some (new_global (str ''Func2'') main_prg 1) \<and>
   static_decl (ProcessDeclarationsConcurrently read_demo [main_prg, utils_prg] init)
     utils_prg (str ''Helper'') = Some (new_static (str ''Helper'') utils_prg 1) \<and>
   occurrences tables_latin1 read_demo main_prg (str ''Func2'') = 1 \<and>
   global_decl (processFileForUsage tables_latin1 read_demo main_prg
       (ProcessDeclarationsConcurrently read_demo [main_prg, utils_prg] init)) (str ''Func2'') =
     Some (new_global (str ''Func2'') main_prg 1) \<and>
   static_decl (processFileForUsage tables_latin1 read_demo utils_prg
       (ProcessDeclarationsConcurrently read_demo [main_prg, utils_prg] init))
       utils_prg (str ''Helper'') =
     Some (new_static (str ''Helper'') utils_prg 3)"
proof -
  let ?D = "ProcessDeclarationsConcurrently read_demo [main_prg, utils_prg] init"
  let ?S = "scan tables_latin1 read_demo [main_prg, utils_prg]"
  have e: "static_decl ?S utils_prg (str ''Helper'') = Some (new_static (str ''Helper'') utils_prg 3)"
    by (simp add: eval_defs)
  have occ: "occurrences tables_latin1 read_demo utils_prg (str ''Helper'') = 3"
    by (simp add: eval_defs)
  have d0: "global_decl ?D (str ''Func2'') = Some (new_global (str ''Func2'') main_prg 1)"
    by (simp add: eval_defs)
  have e0: "static_decl ?D utils_prg (str ''Helper'') = Some (new_static (str ''Helper'') utils_prg 1)"
    by (simp add: eval_defs)
  have occ2: "occurrences tables_latin1 read_demo main_prg (str ''Func2'') = 1"
    by (simp add: eval_defs)
  note inst1 = usage_discounts_one_token [where st = ?D and n = "str ''Func2''"
      and d = "new_global (str ''Func2'') main_prg 1" and f = main_prg and T = tables_latin1
      and rf = read_demo]
  note inst2 = usage_discounts_one_token [where st = ?D and n = "str ''Helper''"
      and e = "new_static (str ''Helper'') utils_prg 1" and f = utils_prg and T = tables_latin1
      and rf = read_demo]
  have c1: "global_decl (processFileForUsage tables_latin1 read_demo main_prg ?D) (str ''Func2'') =
      Some (new_global (str ''Func2'') main_prg 1)"
    using inst1 [THEN conjunct1] d0 occ2 by (simp add: new_global_def)
  have c2: "static_decl (processFileForUsage tables_latin1 read_demo utils_prg ?D)
      utils_prg (str ''Helper'') = Some (new_static (str ''Helper'') utils_prg 3)"
    using inst2 [THEN conjunct2, THEN conjunct1] e0 occ by (simp add: new_static_def)
  show ?thesis using e occ d0 e0 occ2 c1 c2 by simp
qed

section \<open>Duplicate global declarations\<close>

lemma length_filter_key:
  "distinct (map fst al) \<Longrightarrow> map_of al k = Some v \<Longrightarrow>
   length (filter (\<lambda>(k', v'). k' = k) al) = 1"
proof (induction al)
  case Nil
  then show ?case by simp
next
  case (Cons p al)
  obtain k' v' where p: "p = (k', v')" by (cases p)
  show ?case
  proof (cases "k' = k")
    case True
    with Cons.prems p have "k \<notin> fst ` set al" by simp
    then have "filter (\<lambda>(k', v'). k' = k) al = []"
      by (force simp: filter_empty_conv)
    with True p show ?thesis by simp
  next
    case False
    with Cons p show ?thesis by simp
  qed
qed

lemma length_update_existing:
  "map_of al k = Some v \<Longrightarrow> length (AList.update k v' al) = length al"
  by (induction al) (auto split: if_splits)

lemma length_register_existing:
  "global_decl st n = Some gf \<Longrightarrow>
   length (globalFunctions (register f False n st)) = length (globalFunctions st)"
  by (simp add: register_def global_decl_def length_update_existing)

text \<open>
  Claim C4, at an input where it fails. \<^verbatim>\<open>a.prg\<close> declares \<^verbatim>\<open>Foo\<close> and \<^verbatim>\<open>b.prg\<close> declares
  \<^verbatim>\<open>FOO\<close>, the same name to a language that ignores case, as the usage phase does. The
  table keeps two entries, each with the count 1: no counter is incremented.
\<close>

theorem global_identity_case_counterexample:
  "strings_ToLower tables_latin1 (str ''Foo'') = strings_ToLower tables_latin1 (str ''FOO'') \<and>
   global_decl (ProcessDeclarationsConcurrently read_case [a_prg, b_prg] init) (str ''Foo'') =
     Some (new_global (str ''Foo'') a_prg 1) \<and>
   global_decl (ProcessDeclarationsConcurrently read_case [a_prg, b_prg] init) (str ''FOO'') =
     Some (new_global (str ''FOO'') b_prg 1) \<and>
   length (globalFunctions (ProcessDeclarationsConcurrently read_case [a_prg, b_prg] init)) = 2"
  by (simp add: eval_defs tables_latin1_def)

text \<open>
  Claim C4, amended. The identity of a global is its name as it is written. A name that
  lines of the scanned files declare as a global, fewer than \<open>2^63\<close> times, has exactly
  one pair in \<open>globalFunctions\<close> after the declaration phase, whatever the number of these
  lines: its declaration carries one of the files that declare it and a usage count equal
  to the number of the lines. Declaring a name that is already there adds one to the
  counter of its declaration, an \<^verbatim>\<open>int64\<close>, and no pair to the table. A name that differs,
  be it only in case, has a declaration of its own, which is left as it is.
\<close>

theorem duplicate_global_one_entry:
  "(0 < (\<Sum>f\<leftarrow>files. global_lines rf f n) \<and> (\<Sum>f\<leftarrow>files. global_lines rf f n) < 2 ^ 63 \<longrightarrow>
      length (filter (\<lambda>(name, decl). name = n)
                (globalFunctions (ProcessDeclarationsConcurrently rf files init))) = 1 \<and>
      (\<exists>d. global_decl (ProcessDeclarationsConcurrently rf files init) n = Some d \<and>
           Name d = n \<and> \<not> Static d \<and>
           File d \<in> set files \<and> 0 < global_lines rf (File d) n \<and>
           UsageCount d = (\<Sum>f\<leftarrow>files. global_lines rf f n))) \<and>
   (global_decl st n = Some gf \<longrightarrow>
      global_decl (register f False n st) n =
        Some (gf\<lparr>UsageCount := wrap_int64 (UsageCount gf + 1)\<rparr>) \<and>
      length (globalFunctions (register f False n st)) = length (globalFunctions st) \<and>
      (- (2 ^ 63) \<le> UsageCount gf \<and> UsageCount gf < 2 ^ 63 - 1 \<longrightarrow>
         wrap_int64 (UsageCount gf + 1) = UsageCount gf + 1)) \<and>
   (m \<noteq> n \<longrightarrow> global_decl (register f s n st) m = global_decl st m)"
proof -
  let ?D = "ProcessDeclarationsConcurrently rf files init"
  have p1: "length (filter (\<lambda>(name, decl). name = n) (globalFunctions ?D)) = 1 \<and>
      (\<exists>d. global_decl ?D n = Some d \<and> Name d = n \<and> \<not> Static d \<and>
           File d \<in> set files \<and> 0 < global_lines rf (File d) n \<and>
           UsageCount d = (\<Sum>f\<leftarrow>files. global_lines rf f n))"
    if pos: "0 < (\<Sum>f\<leftarrow>files. global_lines rf f n)"
      and below: "(\<Sum>f\<leftarrow>files. global_lines rf f n) < 2 ^ 63"
  proof -
    have "filter (\<lambda>f. 0 < global_lines rf f n) files \<noteq> []"
    proof
      assume "filter (\<lambda>f. 0 < global_lines rf f n) files = []"
      then have "\<And>f. f \<in> set files \<Longrightarrow> global_lines rf f n = 0"
        using global_lines_nonneg [of rf _ n] by (simp add: filter_empty_conv order.antisym not_less)
      then have "(\<Sum>f\<leftarrow>files. global_lines rf f n) = 0" by (rule sum_list_all_zero)
      with pos show False by simp
    qed
    then obtain f0 fs where fl: "filter (\<lambda>f. 0 < global_lines rf f n) files = f0 # fs"
      by (cases "filter (\<lambda>f. 0 < global_lines rf f n) files") auto
    have w: "wrap_int64 (\<Sum>f\<leftarrow>files. global_lines rf f n) = (\<Sum>f\<leftarrow>files. global_lines rf f n)"
      using pos below by (intro wrap_int64_id) simp_all
    from fl have d: "global_decl ?D n =
        Some (new_global n f0 (\<Sum>f\<leftarrow>files. global_lines rf f n))"
      by (simp add: global_decl_phase Let_def w)
    have f0: "f0 \<in> set files \<and> 0 < global_lines rf f0 n" using fl by (rule filter_hd_mem)
    have ok: "table_ok ?D" by (simp add: table_ok_decl_phase table_ok_init)
    then have dist: "distinct (map fst (globalFunctions ?D))"
      by (simp add: table_ok_def funcs_ok_def)
    have "length (filter (\<lambda>(name, decl). name = n) (globalFunctions ?D)) = 1"
      using length_filter_key [OF dist] d unfolding global_decl_def by blast
    with d f0 show ?thesis by simp
  qed
  have p2: "global_decl (register f False n st) n =
        Some (gf\<lparr>UsageCount := wrap_int64 (UsageCount gf + 1)\<rparr>) \<and>
      length (globalFunctions (register f False n st)) = length (globalFunctions st) \<and>
      (- (2 ^ 63) \<le> UsageCount gf \<and> UsageCount gf < 2 ^ 63 - 1 \<longrightarrow>
         wrap_int64 (UsageCount gf + 1) = UsageCount gf + 1)"
    if "global_decl st n = Some gf"
    using that by (simp add: global_decl_register length_register_existing wrap_int64_id)
  have p3: "global_decl (register f s n st) m = global_decl st m" if "m \<noteq> n"
    using that by (simp add: global_decl_register)
  show ?thesis using p1 p2 p3 by blast
qed

theorem duplicate_global_one_entry_witness:
  "(\<Sum>f\<leftarrow>[a_prg, b_prg]. global_lines read_dup f (str ''Foo'')) = 2 \<and>
   length (filter (\<lambda>(name, decl). name = str ''Foo'')
             (globalFunctions (ProcessDeclarationsConcurrently read_dup [a_prg, b_prg] init))) = 1 \<and>
   (\<exists>d. global_decl (ProcessDeclarationsConcurrently read_dup [a_prg, b_prg] init) (str ''Foo'') =
          Some d \<and> UsageCount d = 2) \<and>
   global_decl (ProcessDeclarationsConcurrently read_dup [a_prg] init) (str ''Foo'') =
     Some (new_global (str ''Foo'') a_prg 1) \<and>
   global_decl (register b_prg False (str ''Foo'')
       (ProcessDeclarationsConcurrently read_dup [a_prg] init)) (str ''Foo'') =
     Some (new_global (str ''Foo'') a_prg 2) \<and>
   length (globalFunctions (register b_prg False (str ''Foo'')
       (ProcessDeclarationsConcurrently read_dup [a_prg] init))) = 1 \<and>
   str ''FOO'' \<noteq> str ''Foo'' \<and>
   global_decl (register b_prg False (str ''Foo'')
       (ProcessDeclarationsConcurrently read_dup [a_prg] init)) (str ''FOO'') = None"
proof -
  let ?D = "ProcessDeclarationsConcurrently read_dup [a_prg, b_prg] init"
  let ?A = "ProcessDeclarationsConcurrently read_dup [a_prg] init"
  have pos: "(\<Sum>f\<leftarrow>[a_prg, b_prg]. global_lines read_dup f (str ''Foo'')) = 2"
    by (simp add: eval_defs)
  have a: "global_decl ?A (str ''Foo'') = Some (new_global (str ''Foo'') a_prg 1)"
    by (simp add: eval_defs)
  have la: "length (globalFunctions ?A) = 1"
    by (simp add: eval_defs)
  have a': "global_decl ?A (str ''FOO'') = None"
    by (simp add: eval_defs)
  have ne: "str ''FOO'' \<noteq> str ''Foo''" by (simp add: str_def)
  note inst = duplicate_global_one_entry [where files = "[a_prg, b_prg]" and rf = read_dup
      and n = "str ''Foo''" and st = ?A and gf = "new_global (str ''Foo'') a_prg 1"
      and f = b_prg and m = "str ''FOO''" and s = False]
  from inst [THEN conjunct1] pos have c1:
    "length (filter (\<lambda>(name, decl). name = str ''Foo'') (globalFunctions ?D)) = 1 \<and>
     (\<exists>d. global_decl ?D (str ''Foo'') = Some d \<and> UsageCount d = 2)"
    by auto
  from inst [THEN conjunct2, THEN conjunct1] a la have c2:
    "global_decl (register b_prg False (str ''Foo'') ?A) (str ''Foo'') =
       Some (new_global (str ''Foo'') a_prg 2) \<and>
     length (globalFunctions (register b_prg False (str ''Foo'') ?A)) = 1"
    by (simp add: new_global_def wrap_int64_def)
  from inst [THEN conjunct2, THEN conjunct2] ne a'
  have c3: "global_decl (register b_prg False (str ''Foo'') ?A) (str ''FOO'') = None"
    by simp
  show ?thesis using pos a c1 c2 c3 ne by simp
qed

section \<open>Usage is matched without regard to case\<close>

lemma sum_list_ge_member:
  "(\<And>x. x \<in> set xs \<Longrightarrow> 0 \<le> h x) \<Longrightarrow> g \<in> set xs \<Longrightarrow> h g \<le> (\<Sum>x\<leftarrow>xs. (h x :: int))"
proof (induction xs)
  case Nil
  then show ?case by simp
next
  case (Cons x xs)
  have nn: "0 \<le> (\<Sum>x\<leftarrow>xs. h x)"
    using Cons.prems(1) by (intro sum_list_nonneg) auto
  show ?case
  proof (cases "g = x")
    case True
    with nn show ?thesis by simp
  next
    case False
    with Cons have "h g \<le> (\<Sum>x\<leftarrow>xs. h x)" by simp
    moreover have "0 \<le> h x" using Cons.prems(1) by simp
    ultimately show ?thesis by simp
  qed
qed

text \<open>
  Claim C8. The occurrences counted for a declaration are the tokens of the lower-cased
  file that equal the lower-cased name. A global whose lower-cased name is such a token of
  a scanned file other than its declaring file, or is one twice in a scanned file, ends
  with a usage count of at least 2 and is not in the list of unused globals, as long as
  its declaring lines and these tokens are fewer than \<open>2^63\<close> together, the range of the
  counter: the declaration \<^verbatim>\<open>Procedure MyProc\<close> is used by \<^verbatim>\<open>MYPROC(1)\<close> in another file.
\<close>

theorem usage_ignores_case:
  "occurrences T rf g n =
     (case rf g of
        None \<Rightarrow> 0
      | Some content \<Rightarrow>
          int (count_list (tokenize T (strings_ToLower T content)) (strings_ToLower T n))) \<and>
   (global_decl (scan T rf files) n = Some d \<and> g \<in> set files \<and>
    (g \<noteq> File d \<and> 1 \<le> occurrences T rf g n \<or> 2 \<le> occurrences T rf g n) \<and>
    (\<Sum>f\<leftarrow>files. global_lines rf f n) + (\<Sum>f\<leftarrow>files. occurrences T rf f n) < 2 ^ 63 \<longrightarrow>
      2 \<le> UsageCount d \<and>
      (n, File d) \<notin> set (fst (GetUnusedDeclarations (scan T rf files))))"
proof -
  have p1: "occurrences T rf g n =
     (case rf g of
        None \<Rightarrow> 0
      | Some content \<Rightarrow>
          int (count_list (tokenize T (strings_ToLower T content)) (strings_ToLower T n)))"
    by (simp add: occurrences_def file_freq_def freq_of_count split: option.splits)
  have p2: "2 \<le> UsageCount d \<and>
      (n, File d) \<notin> set (fst (GetUnusedDeclarations (scan T rf files)))"
    if d: "global_decl (scan T rf files) n = Some d" and mem: "g \<in> set files"
      and occ: "g \<noteq> File d \<and> 1 \<le> occurrences T rf g n \<or> 2 \<le> occurrences T rf g n"
      and below: "(\<Sum>f\<leftarrow>files. global_lines rf f n) + (\<Sum>f\<leftarrow>files. occurrences T rf f n)
        < 2 ^ 63"
  proof -
    from d obtain f0 fs where
      fl: "filter (\<lambda>f. 0 < global_lines rf f n) files = f0 # fs" and
      d_eq: "d = new_global n f0 ((\<Sum>f\<leftarrow>files. global_lines rf f n) +
                (\<Sum>f\<leftarrow>files. global_added T rf f n f0))"
      by (auto simp: global_decl_scan global_count_below [OF below] split: list.splits)
    from fl have "f0 \<in> set files \<and> 0 < global_lines rf f0 n" by (rule filter_hd_mem)
    then have "1 \<le> global_lines rf f0 n" and "f0 \<in> set files" by simp_all
    moreover have "global_lines rf f0 n \<le> (\<Sum>f\<leftarrow>files. global_lines rf f n)"
      using \<open>f0 \<in> set files\<close> by (intro sum_list_ge_member) (auto simp: global_lines_nonneg)
    ultimately have lines: "1 \<le> (\<Sum>f\<leftarrow>files. global_lines rf f n)" by simp
    have "1 \<le> global_added T rf g n f0"
      using occ d_eq by (auto simp: global_added_def Let_def)
    moreover have "global_added T rf g n f0 \<le> (\<Sum>f\<leftarrow>files. global_added T rf f n f0)"
      using mem by (intro sum_list_ge_member) (auto simp: global_added_nonneg)
    ultimately have "1 \<le> (\<Sum>f\<leftarrow>files. global_added T rf f n f0)" by simp
    with lines d_eq have c: "2 \<le> UsageCount d" by simp
    have ok: "table_ok (scan T rf files)" by (rule table_ok_scan)
    from c d show ?thesis by (auto simp: unused_global_iff [OF ok])
  qed
  from p2 have c2:
    "global_decl (scan T rf files) n = Some d \<and> g \<in> set files \<and>
     (g \<noteq> File d \<and> 1 \<le> occurrences T rf g n \<or> 2 \<le> occurrences T rf g n) \<and>
    (\<Sum>f\<leftarrow>files. global_lines rf f n) + (\<Sum>f\<leftarrow>files. occurrences T rf f n) < 2 ^ 63 \<longrightarrow>
       2 \<le> UsageCount d \<and>
       (n, File d) \<notin> set (fst (GetUnusedDeclarations (scan T rf files)))"
    by blast
  show ?thesis by (rule conjI [OF p1 c2])
qed

theorem usage_ignores_case_witness:
  "global_decl (scan tables_latin1 read_demo [main_prg, utils_prg]) (str ''MyProc'') =
     Some (new_global (str ''MyProc'') main_prg 2) \<and>
   utils_prg \<noteq> main_prg \<and>
   tokenize tables_latin1 (strings_ToLower tables_latin1 (str ''MYPROC(1)'')) =
     [str ''myproc'', str ''1''] \<and>
   strings_ToLower tables_latin1 (str ''MyProc'') = str ''myproc'' \<and>
   occurrences tables_latin1 read_demo utils_prg (str ''MyProc'') = 1 \<and>
   (\<Sum>f\<leftarrow>[main_prg, utils_prg]. global_lines read_demo f (str ''MyProc'')) +
     (\<Sum>f\<leftarrow>[main_prg, utils_prg]. occurrences tables_latin1 read_demo f (str ''MyProc'')) = 3 \<and>
   (str ''MyProc'', main_prg) \<notin>
     set (fst (GetUnusedDeclarations (scan tables_latin1 read_demo [main_prg, utils_prg])))"
proof -
  let ?S = "scan tables_latin1 read_demo [main_prg, utils_prg]"
  have d: "global_decl ?S (str ''MyProc'') = Some (new_global (str ''MyProc'') main_prg 2)"
    by (simp add: eval_defs)
  have ne: "utils_prg \<noteq> main_prg" by (simp add: eval_defs)
  have tok: "tokenize tables_latin1 (strings_ToLower tables_latin1 (str ''MYPROC(1)'')) =
      [str ''myproc'', str ''1'']"
    by (simp add: eval_defs)
  have low: "strings_ToLower tables_latin1 (str ''MyProc'') = str ''myproc''"
    by (simp add: eval_defs)
  have occ: "occurrences tables_latin1 read_demo utils_prg (str ''MyProc'') = 1"
    by (simp add: eval_defs)
  have tot: "(\<Sum>f\<leftarrow>[main_prg, utils_prg]. global_lines read_demo f (str ''MyProc'')) +
      (\<Sum>f\<leftarrow>[main_prg, utils_prg]. occurrences tables_latin1 read_demo f (str ''MyProc'')) = 3"
    by (simp add: eval_defs)
  note inst = usage_ignores_case [where T = tables_latin1 and rf = read_demo and g = utils_prg
      and n = "str ''MyProc''" and files = "[main_prg, utils_prg]"
      and d = "new_global (str ''MyProc'') main_prg 2"]
  from inst [THEN conjunct2] d ne occ tot
  have "(str ''MyProc'', main_prg) \<notin> set (fst (GetUnusedDeclarations ?S))"
    by simp
  with d ne tok low occ tot show ?thesis by blast
qed

section \<open>Usage counts start at 1 and never go down\<close>

lemma ProcessDeclarationsConcurrently_append:
  "ProcessDeclarationsConcurrently rf (files @ later) st =
     ProcessDeclarationsConcurrently rf later (ProcessDeclarationsConcurrently rf files st)"
  by (simp add: ProcessDeclarationsConcurrently_def)

lemma lines_pos:
  assumes "filter (\<lambda>f. 0 < global_lines rf f n) files = f0 # fs"
  shows "1 \<le> (\<Sum>f\<leftarrow>files. global_lines rf f n)"
proof -
  from assms have m: "f0 \<in> set files \<and> 0 < global_lines rf f0 n" by (rule filter_hd_mem)
  then have "global_lines rf f0 n \<le> (\<Sum>f\<leftarrow>files. global_lines rf f n)"
    by (intro sum_list_ge_member) (auto simp: global_lines_nonneg)
  with m show ?thesis by simp
qed

text \<open>
  Claim C10. A declaration is created with the usage count 1. The usage phase adds to the
  stored counter of a declaration the amount \<open>global_added\<close> or \<open>static_added\<close>, which is
  never negative (the discount is taken from the count of the file, before the addition),
  and it adds it only when it is positive. The counter is an \<^verbatim>\<open>int64\<close>: as long as the sum
  stays below \<open>2^63\<close> the counter is this sum and is not lower than before, and so it is
  while the declaration phase takes more files. Every declaration of the table a scan ends
  with has a usage count of at least 1, when the declaring lines and the tokens that are
  counted for it are fewer than \<open>2^63\<close> together.
\<close>

theorem usage_count_at_least_1:
  "(global_decl st n = None \<longrightarrow>
      global_decl (register f False n st) n =
        Some \<lparr>Name = n, File = f, Static = False, UsageCount = 1\<rparr>) \<and>
   static_decl (register f True n st) f n =
     Some \<lparr>Name = n, File = f, Static = True, UsageCount = 1\<rparr> \<and>
   (global_decl (ProcessDeclarationsConcurrently rf files init) n = Some d \<and>
    (\<Sum>f\<leftarrow>files @ later. global_lines rf f n) < 2 ^ 63 \<longrightarrow>
      1 \<le> UsageCount d \<and>
      (\<exists>d'. global_decl (ProcessDeclarationsConcurrently rf (files @ later) init) n = Some d' \<and>
            UsageCount d \<le> UsageCount d')) \<and>
   (static_decl (ProcessDeclarationsConcurrently rf files init) g n = Some e \<longrightarrow>
      UsageCount e = 1 \<and>
      static_decl (ProcessDeclarationsConcurrently rf (files @ later) init) g n = Some e) \<and>
   (global_decl st n = Some d \<longrightarrow>
      0 \<le> global_added T rf f (Name d) (File d) \<and>
      global_decl (processFileForUsage T rf f st) n =
        Some (if 0 < global_added T rf f (Name d) (File d)
              then d\<lparr>UsageCount :=
                       wrap_int64 (UsageCount d + global_added T rf f (Name d) (File d))\<rparr>
              else d) \<and>
      (- (2 ^ 63) \<le> UsageCount d \<and>
       UsageCount d + global_added T rf f (Name d) (File d) < 2 ^ 63 \<longrightarrow>
         global_decl (processFileForUsage T rf f st) n =
           Some (d\<lparr>UsageCount := UsageCount d + global_added T rf f (Name d) (File d)\<rparr>))) \<and>
   (static_decl st f n = Some e \<longrightarrow>
      0 \<le> static_added T rf f (Name e) \<and>
      static_decl (processFileForUsage T rf f st) f n =
        Some (if 0 < static_added T rf f (Name e)
              then e\<lparr>UsageCount := wrap_int64 (UsageCount e + static_added T rf f (Name e))\<rparr>
              else e) \<and>
      (- (2 ^ 63) \<le> UsageCount e \<and> UsageCount e + static_added T rf f (Name e) < 2 ^ 63 \<longrightarrow>
         static_decl (processFileForUsage T rf f st) f n =
           Some (e\<lparr>UsageCount := UsageCount e + static_added T rf f (Name e)\<rparr>))) \<and>
   (global_decl (scan T rf files) n = Some d \<and>
    (\<Sum>f\<leftarrow>files. global_lines rf f n) + (\<Sum>f\<leftarrow>files. occurrences T rf f n) < 2 ^ 63 \<longrightarrow>
      1 \<le> UsageCount d) \<and>
   (static_decl (scan T rf files) g n = Some e \<and>
    (\<Sum>f\<leftarrow>files. occurrences T rf f n) < 2 ^ 63 \<longrightarrow>
      1 \<le> UsageCount e)"
proof -
  let ?D = "ProcessDeclarationsConcurrently rf files init"
  have c1: "global_decl st n = None \<longrightarrow>
      global_decl (register f False n st) n =
        Some \<lparr>Name = n, File = f, Static = False, UsageCount = 1\<rparr>"
    by (simp add: global_decl_register)
  have c2: "static_decl (register f True n st) f n =
      Some \<lparr>Name = n, File = f, Static = True, UsageCount = 1\<rparr>"
    by (simp add: static_decl_register)
  have c3: "global_decl ?D n = Some d \<and> (\<Sum>f\<leftarrow>files @ later. global_lines rf f n) < 2 ^ 63 \<longrightarrow>
      1 \<le> UsageCount d \<and>
      (\<exists>d'. global_decl (ProcessDeclarationsConcurrently rf (files @ later) init) n = Some d' \<and>
            UsageCount d \<le> UsageCount d')"
  proof
    assume a: "global_decl ?D n = Some d \<and> (\<Sum>f\<leftarrow>files @ later. global_lines rf f n) < 2 ^ 63"
    then have d: "global_decl ?D n = Some d" by simp
    then obtain f0 fs where
      fl: "filter (\<lambda>f. 0 < global_lines rf f n) files = f0 # fs" and
      d_eq: "d = new_global n f0 (wrap_int64 (\<Sum>f\<leftarrow>files. global_lines rf f n))"
      by (auto simp: global_decl_phase Let_def split: list.splits)
    have l1: "1 \<le> (\<Sum>f\<leftarrow>files. global_lines rf f n)" using fl by (rule lines_pos)
    have l2: "0 \<le> (\<Sum>f\<leftarrow>later. global_lines rf f n)" by (rule sum_global_lines_nonneg)
    have below: "(\<Sum>f\<leftarrow>files. global_lines rf f n) + (\<Sum>f\<leftarrow>later. global_lines rf f n) < 2 ^ 63"
      using a by simp
    have w1: "wrap_int64 (\<Sum>f\<leftarrow>files. global_lines rf f n) = (\<Sum>f\<leftarrow>files. global_lines rf f n)"
      using l1 l2 below by (intro wrap_int64_id) simp_all
    have w2: "wrap_int64 ((\<Sum>f\<leftarrow>files. global_lines rf f n) + (\<Sum>f\<leftarrow>later. global_lines rf f n)) =
        (\<Sum>f\<leftarrow>files. global_lines rf f n) + (\<Sum>f\<leftarrow>later. global_lines rf f n)"
      using l1 l2 below by (intro wrap_int64_id) simp_all
    have c: "UsageCount d = (\<Sum>f\<leftarrow>files. global_lines rf f n)" using d_eq w1 by simp
    have "global_decl (ProcessDeclarationsConcurrently rf (files @ later) init) n =
        Some (bump (\<Sum>f\<leftarrow>later. global_lines rf f n) d)"
      using d by (simp add: ProcessDeclarationsConcurrently_append
          global_decl_phase [where rf = rf and files = later] Let_def)
    moreover have "UsageCount d \<le> UsageCount (bump (\<Sum>f\<leftarrow>later. global_lines rf f n) d)"
      using l2 c w2 by (simp add: UsageCount_bump)
    ultimately show "1 \<le> UsageCount d \<and>
      (\<exists>d'. global_decl (ProcessDeclarationsConcurrently rf (files @ later) init) n = Some d' \<and>
            UsageCount d \<le> UsageCount d')"
      using c l1 by simp
  qed
  have c4: "static_decl ?D g n = Some e \<longrightarrow>
      UsageCount e = 1 \<and>
      static_decl (ProcessDeclarationsConcurrently rf (files @ later) init) g n = Some e"
  proof
    assume e: "static_decl ?D g n = Some e"
    then have e_eq: "e = new_static n g 1"
      by (auto simp: static_decl_phase split: if_splits)
    then show "UsageCount e = 1 \<and>
      static_decl (ProcessDeclarationsConcurrently rf (files @ later) init) g n = Some e"
      using e
      by (simp add: ProcessDeclarationsConcurrently_append
          static_decl_phase [where rf = rf and files = later])
  qed
  have c5: "global_decl st n = Some d \<longrightarrow>
      0 \<le> global_added T rf f (Name d) (File d) \<and>
      global_decl (processFileForUsage T rf f st) n =
        Some (if 0 < global_added T rf f (Name d) (File d)
              then d\<lparr>UsageCount :=
                       wrap_int64 (UsageCount d + global_added T rf f (Name d) (File d))\<rparr>
              else d) \<and>
      (- (2 ^ 63) \<le> UsageCount d \<and>
       UsageCount d + global_added T rf f (Name d) (File d) < 2 ^ 63 \<longrightarrow>
         global_decl (processFileForUsage T rf f st) n =
           Some (d\<lparr>UsageCount := UsageCount d + global_added T rf f (Name d) (File d)\<rparr>))"
    using global_added_nonneg [of T rf f "Name d" "File d"]
    by (auto simp: global_decl_usage_file bump_def wrap_int64_id)
  have c6: "static_decl st f n = Some e \<longrightarrow>
      0 \<le> static_added T rf f (Name e) \<and>
      static_decl (processFileForUsage T rf f st) f n =
        Some (if 0 < static_added T rf f (Name e)
              then e\<lparr>UsageCount := wrap_int64 (UsageCount e + static_added T rf f (Name e))\<rparr>
              else e) \<and>
      (- (2 ^ 63) \<le> UsageCount e \<and> UsageCount e + static_added T rf f (Name e) < 2 ^ 63 \<longrightarrow>
         static_decl (processFileForUsage T rf f st) f n =
           Some (e\<lparr>UsageCount := UsageCount e + static_added T rf f (Name e)\<rparr>))"
    using static_added_nonneg [of T rf f "Name e"]
    by (auto simp: static_decl_usage_file bump_def wrap_int64_id)
  have c7: "global_decl (scan T rf files) n = Some d \<and>
      (\<Sum>f\<leftarrow>files. global_lines rf f n) + (\<Sum>f\<leftarrow>files. occurrences T rf f n) < 2 ^ 63 \<longrightarrow>
      1 \<le> UsageCount d"
  proof
    assume a: "global_decl (scan T rf files) n = Some d \<and>
      (\<Sum>f\<leftarrow>files. global_lines rf f n) + (\<Sum>f\<leftarrow>files. occurrences T rf f n) < 2 ^ 63"
    then have below: "(\<Sum>f\<leftarrow>files. global_lines rf f n) + (\<Sum>f\<leftarrow>files. occurrences T rf f n)
        < 2 ^ 63"
      by simp
    from a obtain f0 fs where
      fl: "filter (\<lambda>f. 0 < global_lines rf f n) files = f0 # fs" and
      d_eq: "d = new_global n f0 ((\<Sum>f\<leftarrow>files. global_lines rf f n) +
                (\<Sum>f\<leftarrow>files. global_added T rf f n f0))"
      by (auto simp: global_decl_scan global_count_below [OF below] split: list.splits)
    show "1 \<le> UsageCount d"
      using lines_pos [OF fl]
        sum_global_added_nonneg [where files = files and T = T and rf = rf and n = n
          and ?f0.0 = f0] d_eq
      by simp
  qed
  have c8: "static_decl (scan T rf files) g n = Some e \<and>
      (\<Sum>f\<leftarrow>files. occurrences T rf f n) < 2 ^ 63 \<longrightarrow> 1 \<le> UsageCount e"
  proof
    assume a: "static_decl (scan T rf files) g n = Some e \<and>
      (\<Sum>f\<leftarrow>files. occurrences T rf f n) < 2 ^ 63"
    then have below: "(\<Sum>f\<leftarrow>files. occurrences T rf f n) < 2 ^ 63" by simp
    from a have "e = new_static n g
        (1 + (\<Sum>f\<leftarrow>files. if f = g then static_added T rf f n else 0))"
      by (auto simp: static_decl_scan static_count_below [OF below] split: if_splits)
    then show "1 \<le> UsageCount e"
      using sum_static_added_nonneg [where files = files and g = g and T = T and rf = rf
          and n = n]
      by simp
  qed
  show ?thesis
    by (rule conjI [OF c1 conjI [OF c2 conjI [OF c3 conjI [OF c4 conjI [OF c5
        conjI [OF c6 conjI [OF c7 c8]]]]]]])
qed

theorem usage_count_at_least_1_witness:
  "global_decl init (str ''Foo'') = None \<and>
   global_decl (register a_prg False (str ''Foo'') init) (str ''Foo'') =
     Some (new_global (str ''Foo'') a_prg 1) \<and>
   global_decl (ProcessDeclarationsConcurrently read_dup [a_prg] init) (str ''Foo'') =
     Some (new_global (str ''Foo'') a_prg 1) \<and>
   (\<Sum>f\<leftarrow>[a_prg] @ [b_prg]. global_lines read_dup f (str ''Foo'')) = 2 \<and>
   (\<exists>d'. global_decl (ProcessDeclarationsConcurrently read_dup ([a_prg] @ [b_prg]) init)
          (str ''Foo'') = Some d' \<and> 1 \<le> UsageCount d') \<and>
   static_decl (ProcessDeclarationsConcurrently read_dup [a_prg] init) a_prg (str ''Init'') =
     Some (new_static (str ''Init'') a_prg 1) \<and>
   static_decl (ProcessDeclarationsConcurrently read_dup ([a_prg] @ [b_prg]) init) a_prg
     (str ''Init'') = Some (new_static (str ''Init'') a_prg 1) \<and>
   global_added tables_latin1 read_dup b_prg (str ''Foo'') a_prg = 1 \<and>
   global_decl (processFileForUsage tables_latin1 read_dup b_prg
       (ProcessDeclarationsConcurrently read_dup [a_prg] init)) (str ''Foo'') =
     Some (new_global (str ''Foo'') a_prg 2) \<and>
   static_added tables_latin1 read_dup a_prg (str ''Init'') = 1 \<and>
   static_decl (processFileForUsage tables_latin1 read_dup a_prg
       (ProcessDeclarationsConcurrently read_dup [a_prg] init)) a_prg (str ''Init'') =
     Some (new_static (str ''Init'') a_prg 2) \<and>
   global_decl (scan tables_latin1 read_dup [a_prg, b_prg]) (str ''Foo'') =
     Some (new_global (str ''Foo'') a_prg 3) \<and>
   (\<Sum>f\<leftarrow>[a_prg, b_prg]. global_lines read_dup f (str ''Foo'')) +
     (\<Sum>f\<leftarrow>[a_prg, b_prg]. occurrences tables_latin1 read_dup f (str ''Foo'')) = 4 \<and>
   1 \<le> UsageCount (new_global (str ''Foo'') a_prg 3)"
proof -
  let ?A = "ProcessDeclarationsConcurrently read_dup [a_prg] init"
  let ?S = "scan tables_latin1 read_dup [a_prg, b_prg]"
  have n0: "global_decl init (str ''Foo'') = None" by simp
  have a: "global_decl ?A (str ''Foo'') = Some (new_global (str ''Foo'') a_prg 1)"
    by (simp add: eval_defs)
  have ln: "(\<Sum>f\<leftarrow>[a_prg] @ [b_prg]. global_lines read_dup f (str ''Foo'')) = 2"
    by (simp add: eval_defs)
  have s: "static_decl ?A a_prg (str ''Init'') = Some (new_static (str ''Init'') a_prg 1)"
    by (simp add: eval_defs)
  have ga: "global_added tables_latin1 read_dup b_prg (str ''Foo'') a_prg = 1"
    by (simp add: global_added_def eval_defs)
  have sa: "static_added tables_latin1 read_dup a_prg (str ''Init'') = 1"
    by (simp add: static_added_def eval_defs)
  have fin: "global_decl ?S (str ''Foo'') = Some (new_global (str ''Foo'') a_prg 3)"
    by (simp add: eval_defs)
  have tot: "(\<Sum>f\<leftarrow>[a_prg, b_prg]. global_lines read_dup f (str ''Foo'')) +
      (\<Sum>f\<leftarrow>[a_prg, b_prg]. occurrences tables_latin1 read_dup f (str ''Foo'')) = 4"
    by (simp add: eval_defs)
  note i0 = usage_count_at_least_1 [where st = init and n = "str ''Foo''" and f = a_prg]
  note i1 = usage_count_at_least_1 [where st = ?A and n = "str ''Foo''" and f = b_prg
      and rf = read_dup and files = "[a_prg]" and later = "[b_prg]" and T = tables_latin1
      and d = "new_global (str ''Foo'') a_prg 1"]
  note i2 = usage_count_at_least_1 [where st = ?A and n = "str ''Init''" and f = a_prg
      and g = a_prg and rf = read_dup and files = "[a_prg]" and later = "[b_prg]"
      and T = tables_latin1 and e = "new_static (str ''Init'') a_prg 1"]
  note i3 = usage_count_at_least_1 [where n = "str ''Foo''" and rf = read_dup
      and files = "[a_prg, b_prg]" and T = tables_latin1
      and d = "new_global (str ''Foo'') a_prg 3"]
  from i0 [THEN conjunct1] n0
  have c1: "global_decl (register a_prg False (str ''Foo'') init) (str ''Foo'') =
      Some (new_global (str ''Foo'') a_prg 1)"
    by (simp add: new_global_def)
  from i1 [THEN conjunct2, THEN conjunct2, THEN conjunct1] a ln
  have c3: "\<exists>d'. global_decl (ProcessDeclarationsConcurrently read_dup ([a_prg] @ [b_prg]) init)
      (str ''Foo'') = Some d' \<and> 1 \<le> UsageCount d'"
    by auto
  from i2 [THEN conjunct2, THEN conjunct2, THEN conjunct2, THEN conjunct1] s
  have c4: "static_decl (ProcessDeclarationsConcurrently read_dup ([a_prg] @ [b_prg]) init) a_prg
      (str ''Init'') = Some (new_static (str ''Init'') a_prg 1)"
    by blast
  from i1 [THEN conjunct2, THEN conjunct2, THEN conjunct2, THEN conjunct2, THEN conjunct1] a ga
  have c5: "global_decl (processFileForUsage tables_latin1 read_dup b_prg ?A) (str ''Foo'') =
      Some (new_global (str ''Foo'') a_prg 2)"
    by (simp add: new_global_def wrap_int64_def)
  from i2 [THEN conjunct2, THEN conjunct2, THEN conjunct2, THEN conjunct2, THEN conjunct2,
      THEN conjunct1] s sa
  have c6: "static_decl (processFileForUsage tables_latin1 read_dup a_prg ?A) a_prg (str ''Init'') =
      Some (new_static (str ''Init'') a_prg 2)"
    by (simp add: new_static_def wrap_int64_def)
  from i3 [THEN conjunct2, THEN conjunct2, THEN conjunct2, THEN conjunct2, THEN conjunct2,
      THEN conjunct2, THEN conjunct1] fin tot
  have c7: "1 \<le> UsageCount (new_global (str ''Foo'') a_prg 3)"
    by simp
  show ?thesis using n0 c1 a ln c3 s c4 ga c5 sa c6 fin tot c7 by blast
qed

section \<open>The file locator and the two kinds of failure\<close>

lemma walk_readable:
  "readable d \<Longrightarrow>
   walkDir T d acc =
     (acc @ map fst (filter (\<lambda>(path, name). strings_HasSuffix (strings_ToLower T name) (str ''.prg''))
                      (files_under d)), None)"
  "readable_list ds \<Longrightarrow>
   walkDirs T ds acc =
     (acc @ map fst (filter (\<lambda>(path, name). strings_HasSuffix (strings_ToLower T name) (str ''.prg''))
                      (files_under_list ds)), None)"
  by (induction T d acc and T ds acc rule: walkDir_walkDirs.induct) auto

lemma walk_unreadable:
  "\<not> readable d \<Longrightarrow> \<exists>p. snd (walkDir T d acc) = Some (ReadDirError p)"
  "\<not> readable_list ds \<Longrightarrow> \<exists>p. snd (walkDirs T ds acc) = Some (ReadDirError p)"
proof (induction T d acc and T ds acc rule: walkDir_walkDirs.induct)
  case (5 T d1 ds prgFiles)
  show ?case
  proof (cases "readable d1")
    case True
    with 5 show ?thesis by (simp add: walk_readable(1))
  next
    case False
    with 5(1) obtain p where "snd (walkDir T d1 prgFiles) = Some (ReadDirError p)" by blast
    then show ?thesis by (cases "walkDir T d1 prgFiles") auto
  qed
qed auto

lemma stdout_foldl_register [simp]:
  "stdout (foldl (\<lambda>st (s, m). register f s m st) st ds) = stdout st"
  by (induction ds arbitrary: st) auto

lemma stdout_decl_file:
  "stdout (processFileForDeclarations rf f st) = stdout st @ (if rf f = None then [f] else [])"
  by (cases "rf f")
     (simp_all add: processFileForDeclarations_None processFileForDeclarations_Some)

lemma stdout_decl_phase:
  "stdout (ProcessDeclarationsConcurrently rf files st) =
     stdout st @ filter (\<lambda>f. rf f = None) files"
  unfolding ProcessDeclarationsConcurrently_def
  by (induction files arbitrary: st) (simp_all add: stdout_decl_file)

lemma stdout_usage_file:
  "stdout (processFileForUsage T rf f st) = stdout st @ (if rf f = None then [f] else [])"
  by (cases "rf f") (simp_all add: processFileForUsage_def Let_def)

lemma stdout_usage_phase:
  "stdout (ProcessUsageConcurrently T rf files st) =
     stdout st @ filter (\<lambda>f. rf f = None) files"
  unfolding ProcessUsageConcurrently_def
  by (induction files arbitrary: st) (simp_all add: stdout_usage_file)

lemma sum_list_filter_zero:
  "(\<And>x. \<not> P x \<Longrightarrow> h x = (0::int)) \<Longrightarrow> (\<Sum>x\<leftarrow>filter P xs. h x) = (\<Sum>x\<leftarrow>xs. h x)"
  by (induction xs) auto

lemma global_lines_None [simp]: "rf f = None \<Longrightarrow> global_lines rf f n = 0"
  by (simp add: global_lines_def file_decls_None)

lemma static_declared_None [simp]: "rf f = None \<Longrightarrow> \<not> static_declared rf f n"
  by (simp add: static_declared_def file_decls_None)

lemma global_decl_scan_readable:
  "global_decl (scan T rf (filter (\<lambda>f. rf f \<noteq> None) files)) n = global_decl (scan T rf files) n"
proof -
  have f: "filter (\<lambda>f. 0 < global_lines rf f n) (filter (\<lambda>f. rf f \<noteq> None) files) =
      filter (\<lambda>f. 0 < global_lines rf f n) files"
  proof -
    have "(rf f \<noteq> None \<and> 0 < global_lines rf f n) = (0 < global_lines rf f n)" for f
      by (cases "rf f") simp_all
    then show ?thesis by simp
  qed
  have l: "(\<Sum>f\<leftarrow>filter (\<lambda>f. rf f \<noteq> None) files. global_lines rf f n) =
      (\<Sum>f\<leftarrow>files. global_lines rf f n)"
    by (rule sum_list_filter_zero) simp
  have a: "(\<Sum>f\<leftarrow>filter (\<lambda>f. rf f \<noteq> None) files. global_added T rf f n f0) =
      (\<Sum>f\<leftarrow>files. global_added T rf f n f0)" for f0
    by (rule sum_list_filter_zero) simp
  show ?thesis by (simp only: global_decl_scan f l a)
qed

lemma static_decl_scan_readable:
  "static_decl (scan T rf (filter (\<lambda>f. rf f \<noteq> None) files)) g n = static_decl (scan T rf files) g n"
proof -
  have a: "(\<Sum>f\<leftarrow>filter (\<lambda>f. rf f \<noteq> None) files. if f = g then static_added T rf f n else 0) =
      (\<Sum>f\<leftarrow>files. if f = g then static_added T rf f n else 0)"
    by (rule sum_list_filter_zero) auto
  have m: "(g \<in> set (filter (\<lambda>f. rf f \<noteq> None) files) \<and> static_declared rf g n) =
      (g \<in> set files \<and> static_declared rf g n)"
    by (cases "rf g") auto
  show ?thesis by (simp only: static_decl_scan a m)
qed

text \<open>
  Claim C9. When the root and every directory under it can be read, \<open>SearchPRGFiles\<close>
  returns, without an error, the paths of the entries under the root that are not
  directories and whose lower-cased name ends in \<^verbatim>\<open>.prg\<close>. When the root cannot be reached
  or a directory under it cannot be read it returns an error, and \<open>main\<close> ends with this
  error: no phase runs. A file that cannot be read is reported once by each phase and
  changes nothing else; the tables of the scan are those of the scan of the readable
  files alone, and \<open>main\<close> reports them.
\<close>

theorem locator_and_read_failures:
  "(lstat r = Some d \<and> readable d \<longrightarrow>
      SearchPRGFiles T lstat r =
        (map fst (filter (\<lambda>(path, name). strings_HasSuffix (strings_ToLower T name) (str ''.prg''))
                    (files_under d)), None)) \<and>
   (lstat r = None \<longrightarrow> SearchPRGFiles T lstat r = ([], Some (LstatError r))) \<and>
   (lstat r = Some d \<and> \<not> readable d \<longrightarrow>
      (\<exists>p. snd (SearchPRGFiles T lstat r) = Some (ReadDirError p))) \<and>
   (snd (SearchPRGFiles T lstat r) = Some err \<longrightarrow> main T lstat rf r t = Fatal err) \<and>
   (snd (SearchPRGFiles T lstat r) = None \<longrightarrow>
      main T lstat rf r t =
        Report (fst (GetUnusedDeclarations (scan T rf (fst (SearchPRGFiles T lstat r)))))
               (snd (GetUnusedDeclarations (scan T rf (fst (SearchPRGFiles T lstat r)))))
               (CalculateStatistics t (scan T rf (fst (SearchPRGFiles T lstat r))))
               (stdout (scan T rf (fst (SearchPRGFiles T lstat r))))) \<and>
   (rf f = None \<longrightarrow>
      processFileForDeclarations rf f st = st\<lparr>stdout := stdout st @ [f]\<rparr> \<and>
      processFileForUsage T rf f st = st\<lparr>stdout := stdout st @ [f]\<rparr>) \<and>
   global_decl (scan T rf files) n =
     global_decl (scan T rf (filter (\<lambda>f. rf f \<noteq> None) files)) n \<and>
   static_decl (scan T rf files) g n =
     static_decl (scan T rf (filter (\<lambda>f. rf f \<noteq> None) files)) g n \<and>
   stdout (scan T rf files) =
     filter (\<lambda>f. rf f = None) files @ filter (\<lambda>f. rf f = None) files"
proof -
  have c1: "lstat r = Some d \<and> readable d \<longrightarrow>
      SearchPRGFiles T lstat r =
        (map fst (filter (\<lambda>(path, name). strings_HasSuffix (strings_ToLower T name) (str ''.prg''))
                    (files_under d)), None)"
    by (simp add: SearchPRGFiles_def walk_readable(1))
  have c2: "lstat r = None \<longrightarrow> SearchPRGFiles T lstat r = ([], Some (LstatError r))"
    by (simp add: SearchPRGFiles_def)
  have c3: "lstat r = Some d \<and> \<not> readable d \<longrightarrow>
      (\<exists>p. snd (SearchPRGFiles T lstat r) = Some (ReadDirError p))"
    by (auto simp: SearchPRGFiles_def walk_unreadable(1))
  have c4: "snd (SearchPRGFiles T lstat r) = Some err \<longrightarrow> main T lstat rf r t = Fatal err"
    by (cases "SearchPRGFiles T lstat r") (simp add: main_def)
  have c5: "snd (SearchPRGFiles T lstat r) = None \<longrightarrow>
      main T lstat rf r t =
        Report (fst (GetUnusedDeclarations (scan T rf (fst (SearchPRGFiles T lstat r)))))
               (snd (GetUnusedDeclarations (scan T rf (fst (SearchPRGFiles T lstat r)))))
               (CalculateStatistics t (scan T rf (fst (SearchPRGFiles T lstat r))))
               (stdout (scan T rf (fst (SearchPRGFiles T lstat r))))"
    by (cases "SearchPRGFiles T lstat r") (simp add: main_def Let_def case_prod_unfold)
  have c6: "rf f = None \<longrightarrow>
      processFileForDeclarations rf f st = st\<lparr>stdout := stdout st @ [f]\<rparr> \<and>
      processFileForUsage T rf f st = st\<lparr>stdout := stdout st @ [f]\<rparr>"
    by (simp add: processFileForDeclarations_def processFileForUsage_def)
  have c7: "global_decl (scan T rf files) n =
      global_decl (scan T rf (filter (\<lambda>f. rf f \<noteq> None) files)) n"
    by (simp only: global_decl_scan_readable)
  have c8: "static_decl (scan T rf files) g n =
      static_decl (scan T rf (filter (\<lambda>f. rf f \<noteq> None) files)) g n"
    by (simp only: static_decl_scan_readable)
  have c9: "stdout (scan T rf files) =
      filter (\<lambda>f. rf f = None) files @ filter (\<lambda>f. rf f = None) files"
    by (simp add: scan_def stdout_usage_phase stdout_decl_phase init_def)
  show ?thesis
    by (rule conjI [OF c1 conjI [OF c2 conjI [OF c3 conjI [OF c4 conjI [OF c5
        conjI [OF c6 conjI [OF c7 conjI [OF c8 c9]]]]]]]])
qed

theorem locator_and_read_failures_witness:
  "lstat_demo (str ''.'') = Some tree_demo \<and> readable tree_demo \<and>
   SearchPRGFiles tables_latin1 lstat_demo (str ''.'') = ([a_prg, b_prg, x_prg], None) \<and>
   lstat_demo (str ''gone'') = None \<and>
   main tables_latin1 lstat_demo read_dup (str ''gone'') 0 = Fatal (LstatError (str ''gone'')) \<and>
   lstat_demo (str ''locked'') = Some tree_locked \<and> \<not> readable tree_locked \<and>
   SearchPRGFiles tables_latin1 lstat_demo (str ''locked'') =
     ([str ''locked/a.prg''], Some (ReadDirError (str ''locked/sub''))) \<and>
   main tables_latin1 lstat_demo read_dup (str ''locked'') 0 =
     Fatal (ReadDirError (str ''locked/sub'')) \<and>
   read_dup x_prg = None \<and>
   filter (\<lambda>f. read_dup f \<noteq> None) [a_prg, b_prg, x_prg] = [a_prg, b_prg] \<and>
   global_decl (scan tables_latin1 read_dup [a_prg, b_prg]) (str ''Foo'') =
     Some (new_global (str ''Foo'') a_prg 3) \<and>
   global_decl (scan tables_latin1 read_dup [a_prg, b_prg, x_prg]) (str ''Foo'') =
     Some (new_global (str ''Foo'') a_prg 3) \<and>
   stdout (scan tables_latin1 read_dup [a_prg, b_prg, x_prg]) = [x_prg, x_prg] \<and>
   (\<exists>unusedGlobal unusedStatic stats.
      main tables_latin1 lstat_demo read_dup (str ''.'') 0 =
        Report unusedGlobal unusedStatic stats [x_prg, x_prg])"
proof -
  let ?T = tables_latin1
  have l1: "lstat_demo (str ''.'') = Some tree_demo" by (simp add: lstat_demo_def)
  have r1: "readable tree_demo" by (simp add: tree_demo_def)
  have fu: "map fst (filter (\<lambda>(path, name). strings_HasSuffix (strings_ToLower ?T name) (str ''.prg''))
      (files_under tree_demo)) = [a_prg, b_prg, x_prg]"
    by (simp add: tree_demo_def strings_HasSuffix_def eval_defs)
  have l2: "lstat_demo (str ''gone'') = None" by (simp add: lstat_demo_def str_def)
  have l3: "lstat_demo (str ''locked'') = Some tree_locked" by (simp add: lstat_demo_def str_def)
  have r3: "\<not> readable tree_locked" by (simp add: tree_locked_def)
  have s3: "SearchPRGFiles ?T lstat_demo (str ''locked'') =
      ([str ''locked/a.prg''], Some (ReadDirError (str ''locked/sub'')))"
  proof -
    have "walkDir ?T tree_locked [] =
        ([str ''locked/a.prg''], Some (ReadDirError (str ''locked/sub'')))"
      by (simp add: tree_locked_def strings_HasSuffix_def eval_defs)
    then show ?thesis unfolding SearchPRGFiles_def l3 by simp
  qed
  have x: "read_dup x_prg = None" by (simp add: eval_defs)
  have fl: "filter (\<lambda>f. read_dup f \<noteq> None) [a_prg, b_prg, x_prg] = [a_prg, b_prg]"
    by (simp add: eval_defs)
  have ul: "filter (\<lambda>f. read_dup f = None) [a_prg, b_prg, x_prg] = [x_prg]"
    by (simp add: eval_defs)
  have foo: "global_decl (scan ?T read_dup [a_prg, b_prg]) (str ''Foo'') =
      Some (new_global (str ''Foo'') a_prg 3)"
    by (simp add: eval_defs)
  note i1 = locator_and_read_failures [where lstat = lstat_demo and r = "str ''.''"
      and d = tree_demo and T = ?T and rf = read_dup and t = 0
      and files = "[a_prg, b_prg, x_prg]" and n = "str ''Foo''"]
  note i2 = locator_and_read_failures [where lstat = lstat_demo and r = "str ''gone''"
      and T = ?T and rf = read_dup and t = 0 and err = "LstatError (str ''gone'')"]
  note i3 = locator_and_read_failures [where lstat = lstat_demo and r = "str ''locked''"
      and d = tree_locked and T = ?T and rf = read_dup and t = 0
      and err = "ReadDirError (str ''locked/sub'')"]
  from i1 [THEN conjunct1] l1 r1 fu
  have s1: "SearchPRGFiles ?T lstat_demo (str ''.'') = ([a_prg, b_prg, x_prg], None)"
    by simp
  from i2 [THEN conjunct2, THEN conjunct1] l2
  have s2: "SearchPRGFiles ?T lstat_demo (str ''gone'') = ([], Some (LstatError (str ''gone'')))"
    by simp
  from i2 [THEN conjunct2, THEN conjunct2, THEN conjunct2, THEN conjunct1] s2
  have m2: "main ?T lstat_demo read_dup (str ''gone'') 0 = Fatal (LstatError (str ''gone''))"
    by simp
  from i3 [THEN conjunct2, THEN conjunct2, THEN conjunct2, THEN conjunct1] s3
  have m3: "main ?T lstat_demo read_dup (str ''locked'') 0 =
      Fatal (ReadDirError (str ''locked/sub''))"
    by simp
  from i1 [THEN conjunct2, THEN conjunct2, THEN conjunct2, THEN conjunct2, THEN conjunct2,
      THEN conjunct2, THEN conjunct1] fl foo
  have g: "global_decl (scan ?T read_dup [a_prg, b_prg, x_prg]) (str ''Foo'') =
      Some (new_global (str ''Foo'') a_prg 3)"
    by (simp only:)
  from i1 [THEN conjunct2, THEN conjunct2, THEN conjunct2, THEN conjunct2, THEN conjunct2,
      THEN conjunct2, THEN conjunct2, THEN conjunct2] ul
  have out: "stdout (scan ?T read_dup [a_prg, b_prg, x_prg]) = [x_prg, x_prg]"
    by simp
  from i1 [THEN conjunct2, THEN conjunct2, THEN conjunct2, THEN conjunct2, THEN conjunct1] s1 out
  have m1: "\<exists>unusedGlobal unusedStatic stats.
      main ?T lstat_demo read_dup (str ''.'') 0 =
        Report unusedGlobal unusedStatic stats [x_prg, x_prg]"
    by simp
  show ?thesis using l1 r1 s1 l2 m2 l3 r3 s3 m3 x fl foo g out m1 by blast
qed

section \<open>The order of the files\<close>

text \<open>
  Claim C5, at an input where it fails. \<^verbatim>\<open>a.prg\<close> and \<^verbatim>\<open>b.prg\<close> both declare the global
  \<^verbatim>\<open>Foo\<close>, but in \<^verbatim>\<open>a.prg\<close> the name is followed by a letter that is not ASCII, so that
  \<^verbatim>\<open>foo\<close> is no token of \<^verbatim>\<open>a.prg\<close>. The declaration kept is that of the file taken first:
  with \<^verbatim>\<open>a.prg\<close> first the token of \<^verbatim>\<open>b.prg\<close> is counted and \<^verbatim>\<open>Foo\<close> ends with 3, with
  \<^verbatim>\<open>b.prg\<close> first it is discounted and \<^verbatim>\<open>Foo\<close> ends with 2.
\<close>

theorem order_changes_usage_count:
  "global_decl (scan tables_latin1 read_order [a_prg, b_prg]) (str ''Foo'') =
     Some (new_global (str ''Foo'') a_prg 3) \<and>
   global_decl (scan tables_latin1 read_order [b_prg, a_prg]) (str ''Foo'') =
     Some (new_global (str ''Foo'') b_prg 2)"
  by (simp add: eval_defs tables_latin1_def)

section \<open>The declaration pattern and the rule of the specification\<close>

text \<open>
  Claim C3, at inputs where it fails. Under \<^verbatim>\<open>(?i)\<close> the class \<^verbatim>\<open>[a-zA-Z0-9_]\<close> also
  matches U+212A and the literal \<^verbatim>\<open>s\<close> also matches U+017F: the line \<^verbatim>\<open>function\<close>, a space
  and U+212A declares a global whose name is no ASCII letter, and a line that starts with
  U+017F and \<^verbatim>\<open>tatic function Foo\<close> declares a static, where the rule of the specification
  finds no declaration.
\<close>

theorem declRegex_folds_beyond_ascii:
  "line_decl (str ''function '' @ [8490]) = Some (False, [8490]) \<and>
   spec_line_decl (str ''function '' @ [8490]) = None \<and>
   line_decl ([383] @ str ''tatic function Foo'') = Some (True, str ''Foo'') \<and>
   spec_line_decl ([383] @ str ''tatic function Foo'') = None"
  by (simp add: eval_defs spec_defs)

section \<open>What does not depend on the order of the files\<close>

lemma sum_list_same_set:
  "distinct xs \<Longrightarrow> distinct ys \<Longrightarrow> set ys = set xs \<Longrightarrow>
   (\<Sum>x\<leftarrow>ys. h x) = (\<Sum>x\<leftarrow>xs. (h x :: int))"
  by (simp add: sum_list_distinct_conv_sum_set)

lemma sum_list_two_members:
  assumes nn: "\<And>x. x \<in> set xs \<Longrightarrow> 0 \<le> h x"
    and a: "a \<in> set xs" and b: "b \<in> set xs" and ne: "a \<noteq> b"
  shows "h a + h b \<le> (\<Sum>x\<leftarrow>xs. (h x :: int))"
  using nn a b
proof (induction xs)
  case Nil
  then show ?case by simp
next
  case (Cons x xs)
  have nn': "\<And>y. y \<in> set xs \<Longrightarrow> 0 \<le> h y" using Cons.prems(1) by simp
  have hx: "0 \<le> h x" using Cons.prems(1) by simp
  consider "x = a" | "x = b" | "x \<noteq> a" "x \<noteq> b" by blast
  then show ?case
  proof cases
    case 1
    with ne Cons.prems(3) have "b \<in> set xs" by auto
    then have "h b \<le> (\<Sum>x\<leftarrow>xs. h x)" using nn' by (intro sum_list_ge_member) auto
    with 1 show ?thesis by simp
  next
    case 2
    with ne Cons.prems(2) have "a \<in> set xs" by auto
    then have "h a \<le> (\<Sum>x\<leftarrow>xs. h x)" using nn' by (intro sum_list_ge_member) auto
    with 2 show ?thesis by simp
  next
    case 3
    with Cons.prems have "a \<in> set xs" "b \<in> set xs" by auto
    with Cons.IH nn' have "h a + h b \<le> (\<Sum>x\<leftarrow>xs. h x)" by blast
    with hx show ?thesis by simp
  qed
qed

lemma sum_global_added_declaring:
  "distinct files \<Longrightarrow> f0 \<in> set files \<Longrightarrow> 0 < occurrences T rf f0 n \<Longrightarrow>
   (\<Sum>f\<leftarrow>files. global_added T rf f n f0) = (\<Sum>f\<leftarrow>files. occurrences T rf f n) - 1"
proof (induction files)
  case Nil
  then show ?case by simp
next
  case (Cons f files)
  show ?case
  proof (cases "f = f0")
    case True
    with Cons.prems have "f0 \<notin> set files" by simp
    then have "(\<Sum>f\<leftarrow>files. global_added T rf f n f0) = (\<Sum>f\<leftarrow>files. occurrences T rf f n)"
      by (intro arg_cong [where f = sum_list] map_cong) (auto simp: global_added_def Let_def)
    with True Cons.prems(3) show ?thesis by (simp add: global_added_def)
  next
    case False
    with Cons show ?thesis by (simp add: global_added_def)
  qed
qed

lemma single_declaring_file:
  assumes one: "(\<Sum>f\<leftarrow>files. global_lines rf f n) = 1"
    and a: "a \<in> set files" "0 < global_lines rf a n"
    and b: "b \<in> set files" "0 < global_lines rf b n"
  shows "a = b"
proof (rule ccontr)
  assume "a \<noteq> b"
  then have "global_lines rf a n + global_lines rf b n \<le> (\<Sum>f\<leftarrow>files. global_lines rf f n)"
    using a(1) b(1) by (intro sum_list_two_members) (auto simp: global_lines_nonneg)
  with one a(2) b(2) show False by simp
qed

lemma global_lines_le: "global_lines rf f n \<le>
    (case rf f of None \<Rightarrow> 0 | Some content \<Rightarrow> int (length (strings_Split_nl content)))"
proof (cases "rf f")
  case None
  then show ?thesis by (simp add: global_lines_def file_decls_None)
next
  case (Some content)
  have "length (filter (\<lambda>x. x = (False, n)) (List.map_filter line_decl (strings_Split_nl content)))
      \<le> length (List.map_filter line_decl (strings_Split_nl content))"
    by (rule length_filter_le)
  also have "\<dots> \<le> length (strings_Split_nl content)"
    by (simp add: List.map_filter_def)
  finally show ?thesis by (simp add: Some global_lines_def file_decls_def)
qed

lemma occurrences_le: "occurrences T rf f n \<le>
    (case rf f of None \<Rightarrow> 0
     | Some content \<Rightarrow> int (length (tokenize T (strings_ToLower T content))))"
  by (cases "rf f")
     (simp_all add: occurrences_def file_freq_def freq_of_count count_le_length)

lemma scan_size_bounds:
  "(\<Sum>f\<leftarrow>files. global_lines rf f n) + (\<Sum>f\<leftarrow>files. occurrences T rf f n) \<le>
   scan_size T rf files"
proof (induction files)
  case Nil
  show ?case by (simp add: scan_size_def)
next
  case (Cons f files)
  have "global_lines rf f n + occurrences T rf f n \<le>
      (case rf f of
         None \<Rightarrow> 0
       | Some content \<Rightarrow>
           int (length (strings_Split_nl content)) +
           int (length (tokenize T (strings_ToLower T content))))"
    using global_lines_le [of rf f n] occurrences_le [of T rf f n]
    by (cases "rf f") simp_all
  with Cons show ?case by (simp add: scan_size_def)
qed

lemma unused_global_other_order:
  assumes d: "distinct files" "distinct files'" "set files' = set files"
    and below: "scan_size T rf files < 2 ^ 63"
    and g: "global_decl (scan T rf files) n = Some decl" and c: "UsageCount decl \<le> 1"
  shows "global_decl (scan T rf files') n = Some decl"
proof -
  have cnt: "wrap_int64 ((\<Sum>f\<leftarrow>files. global_lines rf f n) +
        (\<Sum>f\<leftarrow>files. global_added T rf f n f0)) =
      (\<Sum>f\<leftarrow>files. global_lines rf f n) + (\<Sum>f\<leftarrow>files. global_added T rf f n f0)" for f0
    using below scan_size_bounds [where files = files and rf = rf and n = n and T = T]
    by (intro global_count_below) simp
  from g obtain f0 fs where
    fl: "filter (\<lambda>f. 0 < global_lines rf f n) files = f0 # fs" and
    decl: "decl = new_global n f0 ((\<Sum>f\<leftarrow>files. global_lines rf f n) +
              (\<Sum>f\<leftarrow>files. global_added T rf f n f0))"
    by (auto simp: global_decl_scan cnt split: list.splits)
  from fl have f0: "f0 \<in> set files" "0 < global_lines rf f0 n"
    using filter_hd_mem [OF fl] by simp_all
  have "global_lines rf f0 n \<le> (\<Sum>f\<leftarrow>files. global_lines rf f n)"
    using f0(1) by (intro sum_list_ge_member) (auto simp: global_lines_nonneg)
  with f0(2) c decl sum_global_added_nonneg [where files = files and T = T and rf = rf and n = n
      and ?f0.0 = f0]
  have one: "(\<Sum>f\<leftarrow>files. global_lines rf f n) = 1" by simp
  have "filter (\<lambda>f. 0 < global_lines rf f n) files' \<noteq> []"
    using f0 d(3) by (auto simp: filter_empty_conv)
  then obtain f0' fs' where fl': "filter (\<lambda>f. 0 < global_lines rf f n) files' = f0' # fs'"
    by (cases "filter (\<lambda>f. 0 < global_lines rf f n) files'") auto
  then have "f0' \<in> set files" "0 < global_lines rf f0' n"
    using filter_hd_mem [OF fl'] d(3) by simp_all
  with one f0 have same: "f0' = f0" by (intro single_declaring_file [where files = files])
  have "(\<Sum>f\<leftarrow>files'. global_lines rf f n) = (\<Sum>f\<leftarrow>files. global_lines rf f n)"
    using d by (intro sum_list_same_set)
  moreover have "(\<Sum>f\<leftarrow>files'. global_added T rf f n f0) = (\<Sum>f\<leftarrow>files. global_added T rf f n f0)"
    using d by (intro sum_list_same_set)
  ultimately show ?thesis using fl' same decl by (simp add: global_decl_scan cnt)
qed

lemma scan_size_same_set:
  "distinct files \<Longrightarrow> distinct files' \<Longrightarrow> set files' = set files \<Longrightarrow>
   scan_size T rf files' = scan_size T rf files"
  unfolding scan_size_def by (rule sum_list_same_set)

text \<open>
  Two orders of the same files, each file once. The declaration of every static is the
  same, and so is the set of unused statics; so is the set of unused globals when the
  files hold fewer than \<open>2^63\<close> lines and tokens, so that no counter wraps around. The
  usage count of a global is the same when every file that declares it also holds its
  lower-cased name as a token (the file recorded for it is the first declaring file, which
  depends on the order).
\<close>

theorem order_independent_results:
  assumes d: "distinct files" "distinct files'" "set files' = set files"
  shows "static_decl (scan T rf files') g n = static_decl (scan T rf files) g n \<and>
    (scan_size T rf files < 2 ^ 63 \<longrightarrow>
       set (fst (GetUnusedDeclarations (scan T rf files'))) =
         set (fst (GetUnusedDeclarations (scan T rf files)))) \<and>
    set (snd (GetUnusedDeclarations (scan T rf files'))) =
      set (snd (GetUnusedDeclarations (scan T rf files))) \<and>
    ((\<forall>f\<in>set files. 0 < global_lines rf f n \<longrightarrow> 0 < occurrences T rf f n) \<longrightarrow>
       map_option UsageCount (global_decl (scan T rf files') n) =
       map_option UsageCount (global_decl (scan T rf files) n))"
proof -
  have st: "static_decl (scan T rf files') g n = static_decl (scan T rf files) g n" for g n
  proof -
    have "(\<Sum>f\<leftarrow>files'. if f = g then static_added T rf f n else 0) =
        (\<Sum>f\<leftarrow>files. if f = g then static_added T rf f n else 0)"
      using d by (intro sum_list_same_set)
    then show ?thesis using d(3) by (simp add: static_decl_scan)
  qed
  have ok: "table_ok (scan T rf files)" "table_ok (scan T rf files')"
    by (rule table_ok_scan)+
  have d': "distinct files'" "distinct files" "set files = set files'" using d by simp_all
  have ug: "set (fst (GetUnusedDeclarations (scan T rf files'))) =
      set (fst (GetUnusedDeclarations (scan T rf files)))"
    if below: "scan_size T rf files < 2 ^ 63"
  proof (rule set_eqI)
    have below': "scan_size T rf files' < 2 ^ 63"
      using below scan_size_same_set [OF d] by simp
    fix p :: "gostring \<times> gostring"
    obtain m f where p: "p = (m, f)" by (cases p)
    show "(p \<in> set (fst (GetUnusedDeclarations (scan T rf files')))) =
        (p \<in> set (fst (GetUnusedDeclarations (scan T rf files))))"
      unfolding p unused_global_iff [OF ok(1)] unused_global_iff [OF ok(2)]
      using unused_global_other_order [OF d below] unused_global_other_order [OF d' below']
      by blast
  qed
  have us: "set (snd (GetUnusedDeclarations (scan T rf files'))) =
      set (snd (GetUnusedDeclarations (scan T rf files)))"
  proof (rule set_eqI)
    fix p :: "gostring \<times> gostring"
    obtain m f where p: "p = (m, f)" by (cases p)
    show "(p \<in> set (snd (GetUnusedDeclarations (scan T rf files')))) =
        (p \<in> set (snd (GetUnusedDeclarations (scan T rf files))))"
      unfolding p unused_static_iff [OF ok(1)] unused_static_iff [OF ok(2)] st ..
  qed
  have gc: "map_option UsageCount (global_decl (scan T rf files') n) =
      map_option UsageCount (global_decl (scan T rf files) n)"
    if H: "\<forall>f\<in>set files. 0 < global_lines rf f n \<longrightarrow> 0 < occurrences T rf f n"
  proof (cases "filter (\<lambda>f. 0 < global_lines rf f n) files")
    case Nil
    then have "filter (\<lambda>f. 0 < global_lines rf f n) files' = []"
      using d(3) by (simp add: filter_empty_conv)
    with Nil show ?thesis by (simp add: global_decl_scan)
  next
    case (Cons f0 fs)
    then have f0: "f0 \<in> set files" "0 < global_lines rf f0 n"
      using filter_hd_mem [OF Cons] by simp_all
    then have "filter (\<lambda>f. 0 < global_lines rf f n) files' \<noteq> []"
      using d(3) by (auto simp: filter_empty_conv)
    then obtain f0' fs' where fl': "filter (\<lambda>f. 0 < global_lines rf f n) files' = f0' # fs'"
      by (cases "filter (\<lambda>f. 0 < global_lines rf f n) files'") auto
    then have f0': "f0' \<in> set files'" "0 < global_lines rf f0' n"
      using filter_hd_mem [OF fl'] by simp_all
    have a: "(\<Sum>f\<leftarrow>files. global_added T rf f n f0) = (\<Sum>f\<leftarrow>files. occurrences T rf f n) - 1"
      using d(1) f0 H by (intro sum_global_added_declaring) auto
    have a': "(\<Sum>f\<leftarrow>files'. global_added T rf f n f0') =
        (\<Sum>f\<leftarrow>files'. occurrences T rf f n) - 1"
      using d(2) f0' H d(3) by (intro sum_global_added_declaring) auto
    have "(\<Sum>f\<leftarrow>files'. occurrences T rf f n) = (\<Sum>f\<leftarrow>files. occurrences T rf f n)"
      using d by (intro sum_list_same_set)
    moreover have "(\<Sum>f\<leftarrow>files'. global_lines rf f n) = (\<Sum>f\<leftarrow>files. global_lines rf f n)"
      using d by (intro sum_list_same_set)
    ultimately show ?thesis using Cons fl' a a' by (simp add: global_decl_scan)
  qed
  from st ug us gc show ?thesis by blast
qed

theorem order_independent_results_witness:
  "distinct [a_prg, b_prg] \<and> distinct [b_prg, a_prg] \<and> set [b_prg, a_prg] = set [a_prg, b_prg] \<and>
   0 < occurrences tables_latin1 read_dup a_prg (str ''Foo'') \<and>
   0 < occurrences tables_latin1 read_dup b_prg (str ''Foo'') \<and>
   map_option UsageCount (global_decl (scan tables_latin1 read_dup [a_prg, b_prg]) (str ''Foo'')) =
     Some 3 \<and>
   map_option UsageCount (global_decl (scan tables_latin1 read_dup [b_prg, a_prg]) (str ''Foo'')) =
     Some 3 \<and>
   static_decl (scan tables_latin1 read_dup [b_prg, a_prg]) b_prg (str ''Init'') =
     static_decl (scan tables_latin1 read_dup [a_prg, b_prg]) b_prg (str ''Init'') \<and>
   scan_size tables_latin1 read_dup [a_prg, b_prg] = 20 \<and>
   set (fst (GetUnusedDeclarations (scan tables_latin1 read_dup [b_prg, a_prg]))) =
     set (fst (GetUnusedDeclarations (scan tables_latin1 read_dup [a_prg, b_prg])))"
proof -
  have ne: "a_prg \<noteq> b_prg" by (simp add: eval_defs)
  have d: "distinct [a_prg, b_prg]" "distinct [b_prg, a_prg]"
    "set [b_prg, a_prg] = set [a_prg, b_prg]"
    using ne by auto
  have oa: "0 < occurrences tables_latin1 read_dup a_prg (str ''Foo'')"
    by (simp add: eval_defs)
  have ob: "0 < occurrences tables_latin1 read_dup b_prg (str ''Foo'')"
    by (simp add: eval_defs)
  have g: "map_option UsageCount
      (global_decl (scan tables_latin1 read_dup [a_prg, b_prg]) (str ''Foo'')) = Some 3"
    by (simp add: eval_defs)
  note inst = order_independent_results [OF d, where T = tables_latin1 and rf = read_dup
      and g = b_prg and n = "str ''Init''"]
  note inst' = order_independent_results [OF d, where T = tables_latin1 and rf = read_dup
      and n = "str ''Foo''"]
  from inst' oa ob g
  have g': "map_option UsageCount
      (global_decl (scan tables_latin1 read_dup [b_prg, a_prg]) (str ''Foo'')) = Some 3"
    by simp
  from inst have s: "static_decl (scan tables_latin1 read_dup [b_prg, a_prg]) b_prg (str ''Init'') =
      static_decl (scan tables_latin1 read_dup [a_prg, b_prg]) b_prg (str ''Init'')"
    by (rule conjunct1)
  have sz: "scan_size tables_latin1 read_dup [a_prg, b_prg] = 20"
    by (simp add: scan_size_def eval_defs)
  from inst [THEN conjunct2, THEN conjunct1] sz
  have u: "set (fst (GetUnusedDeclarations (scan tables_latin1 read_dup [b_prg, a_prg]))) =
      set (fst (GetUnusedDeclarations (scan tables_latin1 read_dup [a_prg, b_prg])))"
    by simp
  show ?thesis using d oa ob g g' s sz u by blast
qed

section \<open>Matching the declaration pattern\<close>

lemma lit_Nil [simp]: "lit [] = Eps"
  by (simp add: lit_def)

lemma lit_Cons [simp]: "lit (ch # w) = Cat (Cls (fold_eq (of_char ch))) (lit w)"
  by (simp add: lit_def)

lemma fold_keyword_Nil [simp]: "fold_keyword [] s = Some s"
  by (simp add: fold_keyword_def)

lemma fold_keyword_Cons:
  "fold_keyword (ch # w) s =
     (case s of
        [] \<Rightarrow> None
      | x # xs \<Rightarrow> if fold_eq (of_char ch) x then fold_keyword w xs else None)"
  by (cases s) (auto simp: fold_keyword_def)

lemma ms_lit:
  "ms n (lit w) (s, c) = (case fold_keyword w s of None \<Rightarrow> [] | Some s' \<Rightarrow> [(s', c)])"
proof (induction w arbitrary: s)
  case Nil
  show ?case by simp
next
  case (Cons ch w)
  show ?case
    by (cases s) (simp_all add: fold_keyword_Cons Cons.IH)
qed

lemma ms_star_Nil: "ms n (Star (Cls p)) ([], c) = [([], c)]"
  by (subst ms.simps(7)) (simp del: ms.simps(7))

lemma ms_star_Cons:
  "ms n (Star (Cls p)) (x # xs, c) =
     (if p x then ms n (Star (Cls p)) (xs, c) @ [(x # xs, c)] else [(x # xs, c)])"
  by (subst ms.simps(7)) (simp del: ms.simps(7))

lemma concat_star_guarded:
  assumes "\<And>x xs c'. p x \<Longrightarrow> F (x # xs, c') = []"
  shows "concat (map F (ms n (Star (Cls p)) (s, c))) = F (dropWhile p s, c)"
proof (induction s)
  case Nil
  show ?case by (simp add: ms_star_Nil del: ms.simps(7))
next
  case (Cons x xs)
  show ?case
    using Cons.IH assms by (simp add: ms_star_Cons del: ms.simps(7))
qed

lemma ms_star_hd:
  "ms n (Star (Cls p)) (s, c) \<noteq> [] \<and> hd (ms n (Star (Cls p)) (s, c)) = (dropWhile p s, c)"
proof (induction s)
  case Nil
  show ?case by (simp add: ms_star_Nil del: ms.simps(7))
next
  case (Cons x xs)
  then show ?case by (simp add: ms_star_Cons del: ms.simps(7))
qed

lemma ms_plus_guarded:
  assumes "\<And>x xs c'. p x \<Longrightarrow> F (x # xs, c') = []"
  shows "concat (map F (ms n (Plus (Cls p)) (s, c))) =
     (case s of [] \<Rightarrow> [] | x # xs \<Rightarrow> if p x then F (dropWhile p xs, c) else [])"
  using concat_star_guarded [where F = F and p = p, OF assms]
  by (cases s) (simp_all add: Plus_def del: ms.simps(7))

lemma not_name_space: "perl_space x \<Longrightarrow> \<not> name_class x"
  by (auto simp: perl_space_def name_class_def)

lemma not_fold_space:
  "perl_space x \<Longrightarrow> 33 \<le> c \<Longrightarrow> \<not> fold_eq c x"
  by (auto simp: perl_space_def fold_eq_def)

lemma fold_after_kind_space: "perl_space x \<Longrightarrow> fold_after_kind (x # xs) = None"
  by (simp add: fold_after_kind_def fold_keyword_Cons not_fold_space)

lemma fold_after_static_space: "perl_space x \<Longrightarrow> fold_after_static (x # xs) = None"
  by (simp add: fold_after_static_def fold_keyword_Cons not_fold_space)

lemma fold_static_not_kind: "fold_keyword ''static'' s = Some s1 \<Longrightarrow> fold_after_kind s = None"
  by (cases s) (auto simp: fold_after_kind_def fold_keyword_Cons fold_eq_def split: if_splits)

lemma ms_re_name:
  "ms n re_name (s, c) =
     map (\<lambda>(s', c'). (s', c'(3 := Some (take (length s - length s') s))))
       (case s of [] \<Rightarrow> [] | y # ys \<Rightarrow>
          if name_class y then ms n (Star (Cls name_class)) (ys, c) else [])"
  by (cases s) (simp_all add: Plus_def del: ms.simps(7))

lemma ms_re_name_space: "perl_space x \<Longrightarrow> ms n re_name (x # xs, c) = []"
  by (simp add: ms_re_name not_name_space del: ms.simps)

lemma ms_re_from_space:
  "ms n re_from_space (s, c) =
     (case spec_whitespace s of None \<Rightarrow> [] | Some s' \<Rightarrow> ms n re_name (s', c))"
proof -
  have "ms n re_from_space (s, c) =
      concat (map (ms n re_name) (ms n (Plus (Cls perl_space)) (s, c)))"
    by (simp del: ms.simps(7))
  also have "\<dots> = (case s of [] \<Rightarrow> [] | x # xs \<Rightarrow>
      if perl_space x then ms n re_name (dropWhile perl_space xs, c) else [])"
    by (rule ms_plus_guarded) (rule ms_re_name_space)
  finally show ?thesis by (simp add: spec_whitespace_def split: list.splits)
qed

lemma ms_re_from_kind:
  "ms n re_from_kind (s, c) =
     (case fold_after_kind s of
        None \<Rightarrow> []
      | Some s' \<Rightarrow> ms n re_from_space (s', c(2 := Some (take (length s - length s') s))))"
proof (cases "fold_keyword ''function'' s")
  case None
  then show ?thesis
    by (simp add: ms_lit fold_after_kind_def del: ms.simps(7) lit_Cons split: option.splits)
next
  case (Some s')
  then have "fold_keyword ''procedure'' s = None"
    by (cases s) (auto simp: fold_keyword_Cons fold_eq_def split: if_splits)
  with Some show ?thesis
    by (simp add: ms_lit fold_after_kind_def del: ms.simps(7) lit_Cons)
qed

lemma ms_re_from_kind_space: "perl_space x \<Longrightarrow> ms n re_from_kind (x # xs, c) = []"
  by (simp only: ms_re_from_kind fold_after_kind_space option.case)

lemma ms_re_static:
  "concat (map (ms n re_from_kind) (ms n re_static (s, c))) =
     (case fold_after_static s of
        None \<Rightarrow> []
      | Some s' \<Rightarrow> ms n re_from_kind (s', c(1 := Some (take (length s - length s') s))))"
proof -
  let ?cap = "\<lambda>(s', c'). (s', c'(1 := Some (take (length s - length s') s)))"
  let ?F = "\<lambda>st. ms n re_from_kind (?cap st)"
  have guard: "\<And>x xs c'. perl_space x \<Longrightarrow> ?F (x # xs, c') = []"
    by (simp only: prod.case ms_re_from_kind_space)
  have "concat (map (ms n re_from_kind) (ms n re_static (s, c))) =
      concat (map ?F (ms n (Cat (lit ''static'') (Plus (Cls perl_space))) (s, c)))"
    by (simp add: map_concat comp_def del: ms.simps lit_Cons add: ms.simps(8))
  also have "\<dots> = (case fold_keyword ''static'' s of
      None \<Rightarrow> []
    | Some s1 \<Rightarrow> concat (map ?F (ms n (Plus (Cls perl_space)) (s1, c))))"
    by (simp add: ms_lit del: ms.simps(7) lit_Cons split: option.splits)
  also have "\<dots> = (case fold_keyword ''static'' s of
      None \<Rightarrow> []
    | Some s1 \<Rightarrow> (case s1 of [] \<Rightarrow> [] | x # xs \<Rightarrow>
        if perl_space x then ?F (dropWhile perl_space xs, c) else []))"
    using ms_plus_guarded [where F = ?F and p = perl_space and n = n, OF guard]
    by (simp split: option.splits)
  finally show ?thesis
    by (simp add: fold_after_static_def spec_whitespace_def split: option.splits list.splits)
qed

lemma ms_re_from_static:
  "ms n re_from_static (s, c) =
     (case fold_after_static s of
        Some s' \<Rightarrow> ms n re_from_kind (s', c(1 := Some (take (length s - length s') s)))
      | None \<Rightarrow> ms n re_from_kind (s, c))"
proof -
  have split: "ms n re_from_static (s, c) =
      concat (map (ms n re_from_kind) (ms n re_static (s, c))) @ ms n re_from_kind (s, c)"
    by (simp del: ms.simps(7, 8) lit_Cons)
  show ?thesis
  proof (cases "fold_after_static s")
    case None
    then show ?thesis unfolding split ms_re_static by simp
  next
    case (Some s')
    then obtain s1 where "fold_keyword ''static'' s = Some s1"
      by (auto simp: fold_after_static_def split: option.splits)
    then have "fold_after_kind s = None" by (rule fold_static_not_kind)
    then have "ms n re_from_kind (s, c) = []" by (simp only: ms_re_from_kind option.case)
    with Some show ?thesis unfolding split ms_re_static by simp
  qed
qed

lemma ms_re_from_static_space: "perl_space x \<Longrightarrow> ms n re_from_static (x # xs, c) = []"
  by (simp only: ms_re_from_static fold_after_static_space option.case ms_re_from_kind_space)

lemma ms_declRegex:
  "ms n declRegex (s, c) =
     (if length s = n then ms n re_from_static (dropWhile perl_space s, c) else [])"
proof -
  have "ms n declRegex (s, c) =
      (if length s = n
       then concat (map (ms n re_from_static) (ms n (Star (Cls perl_space)) (s, c))) else [])"
    by (simp add: declRegex_def ms.simps(4) [of _ Bol] ms.simps(4) [of _ "Star (Cls perl_space)"]
        del: ms.simps(4-8) lit_Cons)
  also have "\<dots> = (if length s = n then ms n re_from_static (dropWhile perl_space s, c) else [])"
    using concat_star_guarded [where F = "ms n re_from_static" and p = perl_space and n = n
        and s = s and c = c, OF ms_re_from_static_space]
    by (simp only:)
  finally show ?thesis .
qed

lemma take_minus_dropWhile: "take (length xs - length (dropWhile p xs)) xs = takeWhile p xs"
proof -
  have "length xs - length (dropWhile p xs) = length (takeWhile p xs)"
    by (metis add_diff_cancel_right' length_append takeWhile_dropWhile_id)
  then show ?thesis by (simp add: takeWhile_eq_take [symmetric])
qed

lemma first_groups_name:
  "first_groups (ms n re_name (s, c)) =
     (if takeWhile name_class s = [] then None else Some (group c 1, takeWhile name_class s))"
proof (cases s)
  case Nil
  then show ?thesis by (simp add: ms_re_name first_groups_def del: ms.simps)
next
  case (Cons y ys)
  show ?thesis
  proof (cases "name_class y")
    case False
    with Cons show ?thesis by (simp add: ms_re_name first_groups_def del: ms.simps)
  next
    case True
    have le: "length (dropWhile name_class ys) \<le> length ys" by (rule length_dropWhile_le)
    from ms_star_hd [of n name_class ys c] obtain rest where
      L: "ms n (Star (Cls name_class)) (ys, c) = (dropWhile name_class ys, c) # rest"
      by (cases "ms n (Star (Cls name_class)) (ys, c)") auto
    have "take (length s - length (dropWhile name_class ys)) s = y # takeWhile name_class ys"
      using le by (simp add: Cons Suc_diff_le take_minus_dropWhile)
    then show ?thesis
      unfolding ms_re_name using True Cons L
      by (simp add: first_groups_def group_def del: ms.simps)
  qed
qed

lemma first_groups_Nil [simp]: "first_groups [] = None"
  by (simp add: first_groups_def)

lemma group_upd [simp]: "i \<noteq> j \<Longrightarrow> group (c(j := v)) i = group c i"
  by (simp add: group_def)

lemma group_same [simp]: "group (c(i := Some v)) i = v"
  by (simp add: group_def)

lemma first_groups_from_kind:
  "first_groups (ms n re_from_kind (s, c)) = map_option (Pair (group c 1)) (fold_name s)"
  by (simp only: ms_re_from_kind ms_re_from_space)
     (simp add: first_groups_name fold_name_def del: ms.simps lit_Cons split: option.splits)

lemma first_groups_from_static:
  "first_groups (ms n re_from_static (s, c)) =
     (case fold_after_static s of
        Some s' \<Rightarrow> map_option (Pair (take (length s - length s') s)) (fold_name s')
      | None \<Rightarrow> map_option (Pair (group c 1)) (fold_name s))"
  by (simp only: ms_re_from_static)
     (simp add: first_groups_from_kind del: ms.simps lit_Cons split: option.splits)

lemma match_here_first_groups:
  "map_option (\<lambda>m. (m ! 1, m ! 3)) (match_here n r s) = first_groups (ms n r (s, \<lambda>i. None))"
  by (simp add: match_here_def first_groups_def split: list.splits)

lemma match_here_declRegex_short: "length s \<noteq> n \<Longrightarrow> match_here n declRegex s = None"
  by (simp add: match_here_def ms_declRegex del: ms.simps)

lemma search_declRegex_short: "length s < n \<Longrightarrow> search n declRegex s = None"
  by (induction s) (simp_all add: match_here_declRegex_short)

lemma FindStringSubmatch_declRegex:
  "FindStringSubmatch declRegex line = match_here (length line) declRegex line"
  by (cases line)
     (simp_all add: FindStringSubmatch_def search_declRegex_short split: option.splits)

lemma fold_keyword_length: "fold_keyword w s = Some s1 \<Longrightarrow> length s1 \<le> length s"
  by (auto simp: fold_keyword_def split: if_splits)

lemma fold_keyword_shorter:
  "fold_keyword (ch # w) s = Some s1 \<Longrightarrow>
   length s1 < length s \<and> (\<exists>x xs. s = x # xs \<and> fold_eq (of_char ch) x)"
  by (cases s) (auto simp: fold_keyword_Cons less_Suc_eq_le split: if_splits
      dest: fold_keyword_length)

lemma spec_whitespace_shorter: "spec_whitespace s1 = Some s' \<Longrightarrow> length s' < length s1"
  by (cases s1) (auto simp: spec_whitespace_def less_Suc_eq_le length_dropWhile_le
      split: if_splits)

lemma TrimSpace_nonempty: "\<not> unicode_IsSpace x \<Longrightarrow> strings_TrimSpace (x # xs) \<noteq> []"
proof -
  assume nx: "\<not> unicode_IsSpace x"
  then have "dropWhile unicode_IsSpace (x # xs) = x # xs" by simp
  moreover have "dropWhile unicode_IsSpace (rev (x # xs)) \<noteq> []"
    using nx by (simp add: dropWhile_eq_Nil_conv)
  ultimately show ?thesis by (simp add: strings_TrimSpace_def del: dropWhile.simps rev.simps)
qed

lemma static_group_trimmed:
  assumes "fold_after_static s = Some s'"
  shows "strings_TrimSpace (take (length s - length s') s) \<noteq> []"
proof -
  from assms obtain s1 where k: "fold_keyword ''static'' s = Some s1"
    and w: "spec_whitespace s1 = Some s'"
    by (auto simp: fold_after_static_def split: option.splits)
  from fold_keyword_shorter [OF k] obtain x xs where
    s: "s = x # xs" and f: "fold_eq 115 x" and l1: "length s1 < length s"
    by auto
  from spec_whitespace_shorter [OF w] l1 have "0 < length s - length s'" by simp
  then obtain k where "length s - length s' = Suc k" by (cases "length s - length s'") auto
  then have t: "take (length s - length s') s = x # take k xs" by (simp add: s)
  from f have "\<not> unicode_IsSpace x" by (auto simp: fold_eq_def unicode_IsSpace_def)
  then show ?thesis unfolding t by (rule TrimSpace_nonempty)
qed

text \<open>
  The declaration a line gives is the one the closed form gives: the pattern is matched at
  the start of the line only, each repetition takes all it can, and the group of
  \<^verbatim>\<open>static\<close> takes part exactly when the keyword and whitespace are there.
\<close>

lemma line_decl_closed_form: "line_decl line = fold_line_decl line"
proof -
  let ?s = "dropWhile perl_space line"
  have fg: "map_option (\<lambda>m. (m ! 1, m ! 3)) (FindStringSubmatch declRegex line) =
      (case fold_after_static ?s of
        Some s' \<Rightarrow> map_option (Pair (take (length ?s - length s') ?s)) (fold_name s')
      | None \<Rightarrow> map_option (Pair []) (fold_name ?s))"
  proof -
    have "ms (length line) declRegex (line, \<lambda>i. None) =
        ms (length line) re_from_static (?s, \<lambda>i. None)"
      by (simp add: ms_declRegex del: ms.simps lit_Cons)
    then have "map_option (\<lambda>m. (m ! 1, m ! 3)) (FindStringSubmatch declRegex line) =
        first_groups (ms (length line) re_from_static (?s, \<lambda>i. None))"
      by (simp only: FindStringSubmatch_declRegex match_here_first_groups)
    also have "\<dots> = (case fold_after_static ?s of
        Some s' \<Rightarrow> map_option (Pair (take (length ?s - length s') ?s)) (fold_name s')
      | None \<Rightarrow> map_option (Pair []) (fold_name ?s))"
    proof -
      have g: "group (\<lambda>i. None) 1 = []" by (simp add: group_def)
      show ?thesis unfolding first_groups_from_static g ..
    qed
    finally show ?thesis .
  qed
  have ld: "line_decl line =
      map_option (\<lambda>(g1, g3). (strings_TrimSpace g1 \<noteq> [], g3))
        (map_option (\<lambda>m. (m ! 1, m ! 3)) (FindStringSubmatch declRegex line))"
    by (simp add: line_decl_def split: option.splits)
  show ?thesis
  proof (cases "fold_after_static ?s")
    case None
    then show ?thesis
      unfolding ld fg
      by (simp add: fold_line_decl_def strings_TrimSpace_def option.map_comp comp_def)
  next
    case (Some s')
    then show ?thesis
      unfolding ld fg using static_group_trimmed [OF Some]
      by (simp add: fold_line_decl_def option.map_comp comp_def)
  qed
qed

section \<open>The pattern and the rule of the specification on lines without folding runes\<close>

lemma fold_eq_ascii:
  "97 \<le> c \<Longrightarrow> c \<le> 122 \<Longrightarrow> x \<noteq> 383 \<Longrightarrow> x \<noteq> 8490 \<Longrightarrow> fold_eq c x = (ascii_lower x = c)"
  by (auto simp: fold_eq_def ascii_lower_def)

lemma spec_keyword_Nil [simp]: "spec_keyword [] s = Some s"
  by (simp add: spec_keyword_def str_def)

lemma spec_keyword_Cons:
  "spec_keyword (ch # w) s =
     (case s of
        [] \<Rightarrow> None
      | x # xs \<Rightarrow> if ascii_lower x = of_char ch then spec_keyword w xs else None)"
  by (cases s) (auto simp: spec_keyword_def str_def)

lemma keyword_same:
  "(\<forall>ch\<in>set w. 97 \<le> (of_char ch :: nat) \<and> (of_char ch :: nat) \<le> 122) \<Longrightarrow>
   383 \<notin> set s \<Longrightarrow> 8490 \<notin> set s \<Longrightarrow> fold_keyword w s = spec_keyword w s"
proof (induction w arbitrary: s)
  case Nil
  show ?case by simp
next
  case (Cons ch w)
  show ?case
  proof (cases s)
    case Nil
    then show ?thesis by (simp add: fold_keyword_Cons spec_keyword_Cons)
  next
    case (Cons x xs)
    with Cons.prems have "fold_eq (of_char ch) x = (ascii_lower x = of_char ch)"
      by (intro fold_eq_ascii) auto
    moreover have "fold_keyword w xs = spec_keyword w xs"
      using Cons.prems Cons by (intro Cons.IH) auto
    ultimately show ?thesis using Cons by (simp add: fold_keyword_Cons spec_keyword_Cons)
  qed
qed

lemma spec_keyword_suffix: "spec_keyword w s = Some s' \<Longrightarrow> set s' \<subseteq> set s"
  by (auto simp: spec_keyword_def split: if_splits dest: in_set_dropD)

lemma spec_whitespace_suffix: "spec_whitespace s = Some s' \<Longrightarrow> set s' \<subseteq> set s"
  by (cases s) (auto simp: spec_whitespace_def split: if_splits dest: set_dropWhileD)

lemma name_same:
  "383 \<notin> set s \<Longrightarrow> 8490 \<notin> set s \<Longrightarrow> takeWhile name_class s = takeWhile spec_name_char s"
  by (rule takeWhile_cong) (auto simp: name_class_def spec_name_char_def)

lemma after_kind_same:
  "383 \<notin> set s \<Longrightarrow> 8490 \<notin> set s \<Longrightarrow> fold_after_kind s = spec_after_kind s"
  by (simp add: fold_after_kind_def spec_after_kind_def keyword_same cong: option.case_cong)

lemma after_static_same:
  "383 \<notin> set s \<Longrightarrow> 8490 \<notin> set s \<Longrightarrow> fold_after_static s = spec_after_static s"
  by (simp add: fold_after_static_def spec_after_static_def keyword_same cong: option.case_cong)

lemma spec_after_kind_suffix: "spec_after_kind s = Some s' \<Longrightarrow> set s' \<subseteq> set s"
  by (auto simp: spec_after_kind_def split: option.splits dest: spec_keyword_suffix)

lemma spec_after_static_suffix: "spec_after_static s = Some s' \<Longrightarrow> set s' \<subseteq> set s"
  by (auto simp: spec_after_static_def split: option.splits
      dest!: spec_keyword_suffix spec_whitespace_suffix)

lemma name_rule_same:
  assumes "383 \<notin> set s" "8490 \<notin> set s"
  shows "fold_name s = spec_name s"
proof (cases "spec_after_kind s")
  case None
  then show ?thesis using assms by (simp add: fold_name_def spec_name_def after_kind_same)
next
  case (Some s')
  show ?thesis
  proof (cases "spec_whitespace s'")
    case None
    with Some show ?thesis using assms by (simp add: fold_name_def spec_name_def after_kind_same)
  next
    case w: (Some s'')
    have "set s'' \<subseteq> set s"
      using spec_after_kind_suffix [OF Some] spec_whitespace_suffix [OF w] by blast
    with assms have "takeWhile name_class s'' = takeWhile spec_name_char s''"
      by (intro name_same) auto
    with Some w show ?thesis using assms by (simp add: fold_name_def spec_name_def after_kind_same)
  qed
qed

text \<open>
  On a line that holds neither U+017F nor U+212A, the declaration the pattern of the
  source gives is the one the rule of the specification gives: the same lines declare, the
  same name is declared, and it is static exactly when the keyword \<^verbatim>\<open>static\<close> is there.
\<close>

theorem pattern_agrees_with_rule:
  assumes "383 \<notin> set line" "8490 \<notin> set line"
  shows "line_decl line = spec_line_decl line"
proof -
  let ?s = "dropWhile perl_space line"
  have s: "383 \<notin> set ?s" "8490 \<notin> set ?s"
    using assms by (auto dest: set_dropWhileD)
  have st: "fold_after_static ?s = spec_after_static ?s"
    using s by (rule after_static_same)
  have n0: "fold_name ?s = spec_name ?s" using s by (rule name_rule_same)
  have n1: "fold_name s' = spec_name s'" if "spec_after_static ?s = Some s'" for s'
    using spec_after_static_suffix [OF that] s by (intro name_rule_same) auto
  show ?thesis
    unfolding line_decl_closed_form
    by (cases "spec_after_static ?s")
       (simp_all add: fold_line_decl_def spec_line_decl_def st n0 n1)
qed

theorem pattern_agrees_with_rule_witness:
  "383 \<notin> set (str ''  Static  PROCEDURE Helper_1(x)'') \<and>
   8490 \<notin> set (str ''  Static  PROCEDURE Helper_1(x)'') \<and>
   spec_line_decl (str ''  Static  PROCEDURE Helper_1(x)'') = Some (True, str ''Helper_1'') \<and>
   line_decl (str ''  Static  PROCEDURE Helper_1(x)'') = Some (True, str ''Helper_1'')"
proof -
  have a: "383 \<notin> set (str ''  Static  PROCEDURE Helper_1(x)'')"
    "8490 \<notin> set (str ''  Static  PROCEDURE Helper_1(x)'')"
    by (simp_all add: str_def)
  have s: "spec_line_decl (str ''  Static  PROCEDURE Helper_1(x)'') = Some (True, str ''Helper_1'')"
    by (simp add: spec_defs perl_space_def str_def)
  from pattern_agrees_with_rule [OF a] s
  have "line_decl (str ''  Static  PROCEDURE Helper_1(x)'') = Some (True, str ''Helper_1'')"
    by (simp only:)
  with a s show ?thesis by blast
qed

end
